theory Spec2Isabelle
  imports Main
begin

section \<open>The notification store of \<^verbatim>\<open>src/hooks/use-toast.ts\<close>\<close>

text \<open>
  The module keeps four module-level variables (\<^verbatim>\<open>count\<close>, \<^verbatim>\<open>toastTimeouts\<close>,
  \<^verbatim>\<open>listeners\<close>, \<^verbatim>\<open>memoryState\<close>) and uses one facility of the host, \<^verbatim>\<open>setTimeout\<close>.
  The embedding threads a record holding these through every function, in the order the
  source reads and writes them.
\<close>

subsection \<open>Values and toasts\<close>

text \<open>
  A function value stored in a toast. \<^verbatim>\<open>toast()\<close> stores the closure
  \<^verbatim>\<open>(open) => { if (!open) dismiss() }\<close>, which captures the id of the toast it was made
  for; every other function is the caller's and is opaque to the store.
\<close>

datatype handler = DismissOnClose string | External nat

datatype jsval = JUndefined | JBool bool | JStr string | JNum int | JFn handler

text \<open>
  \<^verbatim>\<open>ToasterToast\<close>: the required \<^verbatim>\<open>id: string\<close>, and the own properties other than \<^verbatim>\<open>id\<close>
  (\<^verbatim>\<open>title\<close>, \<^verbatim>\<open>description\<close>, \<^verbatim>\<open>action\<close>, \<^verbatim>\<open>open\<close>, \<^verbatim>\<open>onOpenChange\<close> and the rest of
  \<^verbatim>\<open>ToastProps\<close>) as a map from property name to value. A name outside the domain of the
  map is a property the object does not have.
\<close>

record toaster_toast =
  toast_id :: string
  toast_props :: "string \<rightharpoonup> jsval"

text \<open>
  \<^verbatim>\<open>Partial<ToasterToast>\<close>: the id may be missing (\<open>None\<close>, read as \<^verbatim>\<open>undefined\<close>).
\<close>

record partial_toast =
  pid :: "string option"
  pfields :: "string \<rightharpoonup> jsval"

datatype action =
    ADD_TOAST toaster_toast
  | UPDATE_TOAST partial_toast
  | DISMISS_TOAST "string option"
  | REMOVE_TOAST "string option"

record state =
  toasts :: "toaster_toast list"

subsection \<open>The module's variables and the host's timers\<close>

text \<open>
  A pending \<^verbatim>\<open>setTimeout\<close>: its handle, the time it is due, and the \<^verbatim>\<open>toastId\<close> its
  callback captured (the only callback the module ever schedules is the one of
  \<^verbatim>\<open>addToRemoveQueue\<close>).
\<close>

record timer =
  timer_handle :: nat
  due :: nat
  callback_toastId :: string

text \<open>
  A listener is the \<^verbatim>\<open>setState\<close> of one mounted component, named by a number; calling it
  with a state is recorded in \<open>delivered\<close>.
\<close>

record store =
  count :: nat
  toastTimeouts :: "string \<rightharpoonup> nat"
  listeners :: "nat list"
  memoryState :: state
  now :: nat
  timers :: "timer list"
  nextTimer :: nat
  delivered :: "(nat \<times> state) list"

definition TOAST_LIMIT :: nat where
  "TOAST_LIMIT = 1"

definition TOAST_REMOVE_DELAY :: nat where
  "TOAST_REMOVE_DELAY = 1000000"

definition MAX_SAFE_INTEGER :: nat where
  "MAX_SAFE_INTEGER = 9007199254740991"

definition initial :: store where
  "initial = \<lparr> count = 0, toastTimeouts = Map.empty, listeners = [],
       memoryState = \<lparr> toasts = [] \<rparr>, now = 0, timers = [], nextTimer = 0,
       delivered = [] \<rparr>"

subsection \<open>\<^verbatim>\<open>genId\<close>\<close>

definition digit_char :: "nat \<Rightarrow> char" where
  "digit_char d = ''0123456789'' ! d"

text \<open>\<^verbatim>\<open>Number.prototype.toString\<close> on a non-negative integer: its decimal digits.\<close>

function toString :: "nat \<Rightarrow> string" where
  "toString n =
     (if n < 10 then [digit_char n] else toString (n div 10) @ [digit_char (n mod 10)])"
  by pat_completeness auto
termination
  by (relation "measure (\<lambda>n. n)") auto

declare toString.simps [simp del]

definition genId :: "store \<Rightarrow> string \<times> store" where
  "genId g =
     (let c = (count g + 1) mod MAX_SAFE_INTEGER
      in (toString c, g\<lparr> count := c \<rparr>))"

subsection \<open>\<^verbatim>\<open>addToRemoveQueue\<close>\<close>

text \<open>
  \<^verbatim>\<open>setTimeout(cb, delay)\<close>, for the callback of \<^verbatim>\<open>addToRemoveQueue\<close> that captured
  \<open>toastId\<close>: the timer is appended to the pending ones and its handle returned.
\<close>

definition setTimeout :: "string \<Rightarrow> nat \<Rightarrow> store \<Rightarrow> nat \<times> store" where
  "setTimeout toastId delay g =
     (nextTimer g,
      g\<lparr> timers := timers g @
            [\<lparr> timer_handle = nextTimer g, due = now g + delay,
               callback_toastId = toastId \<rparr>],
         nextTimer := nextTimer g + 1 \<rparr>)"

definition addToRemoveQueue :: "string \<Rightarrow> store \<Rightarrow> store" where
  "addToRemoveQueue toastId g =
     (if toastTimeouts g toastId \<noteq> None then g
      else
        (let (timeout, g1) = setTimeout toastId TOAST_REMOVE_DELAY g
         in g1\<lparr> toastTimeouts := (toastTimeouts g1)(toastId \<mapsto> timeout) \<rparr>))"

subsection \<open>\<^verbatim>\<open>reducer\<close>\<close>

text \<open>
  The object spread \<^verbatim>\<open>{ ...t, ...action.toast }\<close>: a property of the right operand wins. The
  reducer spreads only when the patch's id is the toast's, so the id of the result is the
  toast's own.
\<close>

definition spread :: "toaster_toast \<Rightarrow> partial_toast \<Rightarrow> toaster_toast" where
  "spread t p =
     \<lparr> toast_id = (case pid p of Some i \<Rightarrow> i | None \<Rightarrow> toast_id t),
       toast_props = toast_props t ++ pfields p \<rparr>"

text \<open>
  The reducer returns the new state; since its \<^verbatim>\<open>DISMISS_TOAST\<close> case calls
  \<^verbatim>\<open>addToRemoveQueue\<close>, it also returns the module's variables as it leaves them.
  \<^verbatim>\<open>if (toastId)\<close> is false for \<^verbatim>\<open>undefined\<close> and for the empty string.
\<close>

fun reducer :: "state \<Rightarrow> action \<Rightarrow> store \<Rightarrow> state \<times> store" where
  "reducer s (ADD_TOAST t) g =
     (s\<lparr> toasts := take TOAST_LIMIT (t # toasts s) \<rparr>, g)"
| "reducer s (UPDATE_TOAST p) g =
     (s\<lparr> toasts := map (\<lambda>t. if Some (toast_id t) = pid p then spread t p else t)
                       (toasts s) \<rparr>, g)"
| "reducer s (DISMISS_TOAST toastId) g =
     (let g' =
        (case toastId of
           Some i \<Rightarrow>
             if i \<noteq> [] then addToRemoveQueue i g
             else fold addToRemoveQueue (map toast_id (toasts s)) g
         | None \<Rightarrow> fold addToRemoveQueue (map toast_id (toasts s)) g)
      in (s\<lparr> toasts :=
               map (\<lambda>t. if Some (toast_id t) = toastId \<or> toastId = None
                         then t\<lparr> toast_props := (toast_props t)(''open'' \<mapsto> JBool False) \<rparr>
                         else t)
                   (toasts s) \<rparr>, g'))"
| "reducer s (REMOVE_TOAST toastId) g =
     (case toastId of
        None \<Rightarrow> (s\<lparr> toasts := [] \<rparr>, g)
      | Some i \<Rightarrow> (s\<lparr> toasts := filter (\<lambda>t. toast_id t \<noteq> i) (toasts s) \<rparr>, g))"

subsection \<open>\<^verbatim>\<open>dispatch\<close>, \<^verbatim>\<open>toast\<close> and the handle it returns\<close>

definition call_listener :: "nat \<Rightarrow> store \<Rightarrow> store" where
  "call_listener l g = g\<lparr> delivered := delivered g @ [(l, memoryState g)] \<rparr>"

definition dispatch :: "action \<Rightarrow> store \<Rightarrow> store" where
  "dispatch a g =
     (let (s', g1) = reducer (memoryState g) a g;
          g2 = g1\<lparr> memoryState := s' \<rparr>
      in fold call_listener (listeners g2) g2)"

text \<open>
  \<^verbatim>\<open>toast\<close> builds \<^verbatim>\<open>{ ...props, id, open: true, onOpenChange }\<close>: an \<^verbatim>\<open>id\<close> that the payload
  carries is overwritten by the new one, so it is not among the other properties of the
  toast.
\<close>

definition toast :: "(string \<rightharpoonup> jsval) \<Rightarrow> store \<Rightarrow> string \<times> store" where
  "toast props g =
     (let (i, g1) = genId g
      in (i, dispatch (ADD_TOAST
                \<lparr> toast_id = i,
                  toast_props = (props(''id'' := None))
                                  (''open'' \<mapsto> JBool True,
                                   ''onOpenChange'' \<mapsto> JFn (DismissOnClose i)) \<rparr>) g1))"

text \<open>The \<^verbatim>\<open>update\<close> and \<^verbatim>\<open>dismiss\<close> of the handle whose \<^verbatim>\<open>id\<close> is \<open>i\<close>.\<close>

definition handle_update :: "string \<Rightarrow> toaster_toast \<Rightarrow> store \<Rightarrow> store" where
  "handle_update i props = dispatch (UPDATE_TOAST \<lparr> pid = Some i, pfields = toast_props props \<rparr>)"

definition handle_dismiss :: "string \<Rightarrow> store \<Rightarrow> store" where
  "handle_dismiss i = dispatch (DISMISS_TOAST (Some i))"


text \<open>The \<^verbatim>\<open>dismiss\<close> that \<^verbatim>\<open>useToast\<close> returns.\<close>

definition dismiss :: "string option \<Rightarrow> store \<Rightarrow> store" where
  "dismiss toastId = dispatch (DISMISS_TOAST toastId)"

text \<open>The effect of \<^verbatim>\<open>useToast\<close> on mount, and its cleanup.\<close>

definition subscribe :: "nat \<Rightarrow> store \<Rightarrow> store" where
  "subscribe l g = g\<lparr> listeners := listeners g @ [l] \<rparr>"

definition unsubscribe :: "nat \<Rightarrow> store \<Rightarrow> store" where
  "unsubscribe l g = g\<lparr> listeners := remove1 l (listeners g) \<rparr>"

subsection \<open>Timers firing\<close>

text \<open>The body of the callback that \<^verbatim>\<open>addToRemoveQueue\<close> hands to \<^verbatim>\<open>setTimeout\<close>.\<close>

definition timeout_callback :: "string \<Rightarrow> store \<Rightarrow> store" where
  "timeout_callback toastId g =
     dispatch (REMOVE_TOAST (Some toastId))
       (g\<lparr> toastTimeouts := (toastTimeouts g)(toastId := None) \<rparr>)"

text \<open>One pending timer fires: the host forgets it and runs its callback.\<close>

definition fire :: "timer \<Rightarrow> store \<Rightarrow> store" where
  "fire tm g =
     timeout_callback (callback_toastId tm) (g\<lparr> timers := remove1 tm (timers g) \<rparr>)"

text \<open>
  \<open>d\<close> milliseconds pass with no other call: every timer due by then fires, earliest
  first, timers due together in the order they were set.
\<close>

definition elapse :: "nat \<Rightarrow> store \<Rightarrow> store" where
  "elapse d g =
     (let t = now g + d;
          ready = sort_key due (filter (\<lambda>tm. due tm \<le> t) (timers g));
          g1 = g\<lparr> now := t, timers := filter (\<lambda>tm. \<not> due tm \<le> t) (timers g) \<rparr>
      in fold (\<lambda>tm. timeout_callback (callback_toastId tm)) ready g1)"

subsection \<open>Reachable stores\<close>

datatype event =
    Show "string \<rightharpoonup> jsval"
  | Update string toaster_toast
  | Dismiss "string option"
  | Elapse nat
  | Subscribe nat
  | Unsubscribe nat

fun step :: "event \<Rightarrow> store \<Rightarrow> store" where
  "step (Show props) g = snd (toast props g)"
| "step (Update i props) g = handle_update i props g"
| "step (Dismiss toastId) g = dismiss toastId g"
| "step (Elapse d) g = elapse d g"
| "step (Subscribe l) g = subscribe l g"
| "step (Unsubscribe l) g = unsubscribe l g"

inductive reachable :: "store \<Rightarrow> bool" where
  start: "reachable initial"
| after: "reachable g \<Longrightarrow> reachable (step e g)"

subsection \<open>Sequences of \<^verbatim>\<open>toast\<close> calls\<close>

definition show_all :: "(string \<rightharpoonup> jsval) list \<Rightarrow> store \<Rightarrow> store" where
  "show_all ps g = fold (\<lambda>p g. snd (toast p g)) ps g"

text \<open>The toasts that the calls \<open>toast p\<close> for the \<open>p\<close> of \<open>ps\<close> build, in call order.\<close>

fun shown :: "(string \<rightharpoonup> jsval) list \<Rightarrow> store \<Rightarrow> toaster_toast list" where
  "shown [] g = []"
| "shown (p # ps) g =
     \<lparr> toast_id = fst (toast p g),
       toast_props = (p(''id'' := None))
                       (''open'' \<mapsto> JBool True,
                        ''onOpenChange'' \<mapsto> JFn (DismissOnClose (fst (toast p g)))) \<rparr>
     # shown ps (snd (toast p g))"

subsection \<open>Consistency of the timer bookkeeping\<close>

text \<open>
  \<^verbatim>\<open>toastTimeouts\<close> and the host's pending timers agree: one pending timer for each key of
  the map, holding the handle stored there, due later than now and no later than the
  removal delay from now.
\<close>

definition timers_ok :: "store \<Rightarrow> bool" where
  "timers_ok g \<longleftrightarrow>
     distinct (map callback_toastId (timers g)) \<and>
     (\<forall>tm \<in> set (timers g).
        toastTimeouts g (callback_toastId tm) = Some (timer_handle tm) \<and>
        now g < due tm \<and> due tm \<le> now g + TOAST_REMOVE_DELAY) \<and>
     dom (toastTimeouts g) \<subseteq> callback_toastId ` set (timers g)"

text \<open>
  What every reachable store satisfies: the list is within the limit, a tracked toast
  bears the id made from the current value of the counter, the empty string is no key of
  \<^verbatim>\<open>toastTimeouts\<close>, the timer bookkeeping is consistent and the counter is below
  \<^verbatim>\<open>Number.MAX_SAFE_INTEGER\<close>.
\<close>

definition store_inv :: "store \<Rightarrow> bool" where
  "store_inv g \<longleftrightarrow>
     length (toasts (memoryState g)) \<le> TOAST_LIMIT \<and>
     (\<forall>t \<in> set (toasts (memoryState g)). toast_id t = toString (count g)) \<and>
     toastTimeouts g [] = None \<and>
     timers_ok g \<and>
     count g < MAX_SAFE_INTEGER"

section \<open>Basic facts\<close>

subsection \<open>What each function leaves alone\<close>

lemma fold_call_listener:
  "fold call_listener ls g = g\<lparr> delivered := delivered g @ map (\<lambda>l. (l, memoryState g)) ls \<rparr>"
  by (induction ls arbitrary: g) (simp_all add: call_listener_def)

lemma addToRemoveQueue_frame [simp]:
  "memoryState (addToRemoveQueue k g) = memoryState g"
  "count (addToRemoveQueue k g) = count g"
  "listeners (addToRemoveQueue k g) = listeners g"
  "delivered (addToRemoveQueue k g) = delivered g"
  "now (addToRemoveQueue k g) = now g"
  by (simp_all add: addToRemoveQueue_def setTimeout_def)

lemma fold_addToRemoveQueue_frame [simp]:
  "memoryState (fold addToRemoveQueue ks g) = memoryState g"
  "count (fold addToRemoveQueue ks g) = count g"
  "listeners (fold addToRemoveQueue ks g) = listeners g"
  "delivered (fold addToRemoveQueue ks g) = delivered g"
  "now (fold addToRemoveQueue ks g) = now g"
  by (induction ks arbitrary: g) simp_all

lemma reducer_frame [simp]:
  "memoryState (snd (reducer s a g)) = memoryState g"
  "count (snd (reducer s a g)) = count g"
  "listeners (snd (reducer s a g)) = listeners g"
  "delivered (snd (reducer s a g)) = delivered g"
  "now (snd (reducer s a g)) = now g"
  by (cases a; simp add: Let_def split: option.splits)+

lemma dispatch_eq:
  "dispatch a g =
     (snd (reducer (memoryState g) a g))
       \<lparr> memoryState := fst (reducer (memoryState g) a g),
         delivered := delivered g @
            map (\<lambda>l. (l, fst (reducer (memoryState g) a g))) (listeners g) \<rparr>"
  by (simp add: dispatch_def split_def Let_def fold_call_listener)

lemma toString_nonempty: "toString n \<noteq> []" by (subst toString.simps) simp

subsection \<open>Queueing a removal\<close>

lemma addToRemoveQueue_timers_ok:
  "timers_ok g \<Longrightarrow> timers_ok (addToRemoveQueue k g)"
  by (auto simp: timers_ok_def addToRemoveQueue_def setTimeout_def TOAST_REMOVE_DELAY_def)

lemma addToRemoveQueue_armed: "toastTimeouts (addToRemoveQueue k g) k \<noteq> None"
  by (simp add: addToRemoveQueue_def setTimeout_def)

lemma addToRemoveQueue_keeps:
  "toastTimeouts g j \<noteq> None \<Longrightarrow> toastTimeouts (addToRemoveQueue k g) j = toastTimeouts g j"
  by (auto simp: addToRemoveQueue_def setTimeout_def)

lemma addToRemoveQueue_other:
  "j \<noteq> k \<Longrightarrow> toastTimeouts (addToRemoveQueue k g) j = toastTimeouts g j"
  by (auto simp: addToRemoveQueue_def setTimeout_def)

lemma addToRemoveQueue_noop:
  "toastTimeouts g k \<noteq> None \<Longrightarrow> addToRemoveQueue k g = g"
  by (simp add: addToRemoveQueue_def)

lemma fold_addToRemoveQueue_timers_ok:
  "timers_ok g \<Longrightarrow> timers_ok (fold addToRemoveQueue ks g)"
  by (induction ks arbitrary: g) (simp_all add: addToRemoveQueue_timers_ok)

lemma fold_addToRemoveQueue_other:
  "j \<notin> set ks \<Longrightarrow> toastTimeouts (fold addToRemoveQueue ks g) j = toastTimeouts g j"
  by (induction ks arbitrary: g) (simp_all add: addToRemoveQueue_other)

lemma fold_addToRemoveQueue_keeps:
  "toastTimeouts g j \<noteq> None \<Longrightarrow> toastTimeouts (fold addToRemoveQueue ks g) j = toastTimeouts g j"
  by (induction ks arbitrary: g) (simp_all add: addToRemoveQueue_keeps)

lemma fold_addToRemoveQueue_armed:
  "k \<in> set ks \<Longrightarrow> toastTimeouts (fold addToRemoveQueue ks g) k \<noteq> None"
proof (induction ks arbitrary: g)
  case Nil
  then show ?case by simp
next
  case (Cons a ks)
  show ?case
  proof (cases "k = a")
    case True
    have "toastTimeouts (addToRemoveQueue a g) a \<noteq> None"
      by (rule addToRemoveQueue_armed)
    then show ?thesis using True
      by (simp add: fold_addToRemoveQueue_keeps)
  next
    case False
    then show ?thesis using Cons by simp
  qed
qed

lemma fold_addToRemoveQueue_noop:
  "\<forall>k \<in> set ks. toastTimeouts g k \<noteq> None \<Longrightarrow> fold addToRemoveQueue ks g = g"
  by (induction ks) (simp_all add: addToRemoveQueue_noop)


subsection \<open>Dispatch keeps the store consistent\<close>

lemma dispatch_fields [simp]:
  "memoryState (dispatch a g) = fst (reducer (memoryState g) a g)"
  "toastTimeouts (dispatch a g) = toastTimeouts (snd (reducer (memoryState g) a g))"
  "timers (dispatch a g) = timers (snd (reducer (memoryState g) a g))"
  "nextTimer (dispatch a g) = nextTimer (snd (reducer (memoryState g) a g))"
  "count (dispatch a g) = count g"
  "listeners (dispatch a g) = listeners g"
  "now (dispatch a g) = now g"
  "delivered (dispatch a g) =
     delivered g @ map (\<lambda>l. (l, fst (reducer (memoryState g) a g))) (listeners g)"
  by (simp_all add: dispatch_eq)

lemma timers_ok_cong:
  "toastTimeouts g' = toastTimeouts g \<Longrightarrow> timers g' = timers g \<Longrightarrow> now g' = now g
     \<Longrightarrow> timers_ok g' = timers_ok g"
  by (simp add: timers_ok_def)

lemma reducer_timers_ok:
  "timers_ok g \<Longrightarrow> timers_ok (snd (reducer s a g))"
  by (cases a)
     (simp_all add: Let_def addToRemoveQueue_timers_ok fold_addToRemoveQueue_timers_ok
        split: option.splits)

lemma dispatch_timers_ok:
  "timers_ok g \<Longrightarrow> timers_ok (dispatch a g)"
  using reducer_timers_ok [of g "memoryState g" a]
        timers_ok_cong [of "dispatch a g" "snd (reducer (memoryState g) a g)"]
  by simp

lemma reducer_length:
  assumes "length (toasts s) \<le> TOAST_LIMIT"
  shows "length (toasts (fst (reducer s a g))) \<le> TOAST_LIMIT"
proof (cases a)
  case (REMOVE_TOAST x)
  have "length (filter P (toasts s)) \<le> TOAST_LIMIT" for P
    using assms length_filter_le [of P "toasts s"] by linarith
  then show ?thesis using REMOVE_TOAST
    by (simp split: option.splits)
qed (use assms in \<open>simp_all add: Let_def\<close>)

lemma reducer_ids:
  assumes "\<forall>t \<in> set (toasts s). toast_id t = c"
    and "\<And>t. a = ADD_TOAST t \<Longrightarrow> toast_id t = c"
  shows "\<forall>t \<in> set (toasts (fst (reducer s a g))). toast_id t = c"
proof (cases a)
  case (ADD_TOAST t)
  have "set (take TOAST_LIMIT (t # toasts s)) \<subseteq> set (t # toasts s)"
    by (rule set_take_subset)
  then show ?thesis using ADD_TOAST assms by auto
next
  case (UPDATE_TOAST p)
  then show ?thesis using assms by (auto simp: spread_def split: option.splits)
next
  case (DISMISS_TOAST x)
  then show ?thesis using assms by (auto simp: Let_def)
next
  case (REMOVE_TOAST x)
  then show ?thesis using assms by (auto split: option.splits)
qed

lemma reducer_empty_key:
  assumes "\<forall>t \<in> set (toasts s). toast_id t \<noteq> []" and "toastTimeouts g [] = None"
  shows "toastTimeouts (snd (reducer s a g)) [] = None"
proof (cases a)
  case (DISMISS_TOAST x)
  have "[] \<notin> set (map toast_id (toasts s))" using assms(1) by auto
  then have "toastTimeouts (fold addToRemoveQueue (map toast_id (toasts s)) g) [] = None"
    using assms(2) by (simp add: fold_addToRemoveQueue_other)
  then show ?thesis using DISMISS_TOAST assms(2)
    by (simp add: Let_def addToRemoveQueue_other split: option.splits)
qed (use assms in \<open>simp_all split: option.splits\<close>)

lemma store_inv_ids_nonempty:
  "store_inv g \<Longrightarrow> \<forall>t \<in> set (toasts (memoryState g)). toast_id t \<noteq> []"
  by (simp add: store_inv_def toString_nonempty)

lemma dispatch_inv:
  assumes "store_inv g" and "\<And>t. a \<noteq> ADD_TOAST t"
  shows "store_inv (dispatch a g)"
proof -
  have "length (toasts (memoryState (dispatch a g))) \<le> TOAST_LIMIT"
    using assms(1) reducer_length [of "memoryState g" a g] by (simp add: store_inv_def)
  moreover have "\<forall>t \<in> set (toasts (memoryState (dispatch a g))).
      toast_id t = toString (count (dispatch a g))"
    using assms reducer_ids [of "memoryState g" "toString (count g)" a g]
    by (simp add: store_inv_def)
  moreover have "toastTimeouts (dispatch a g) [] = None"
    using assms(1) store_inv_ids_nonempty [OF assms(1)]
      reducer_empty_key [of "memoryState g" g a]
    by (simp add: store_inv_def)
  moreover have "timers_ok (dispatch a g)"
    using assms(1) dispatch_timers_ok [of g a] by (simp add: store_inv_def)
  moreover have "count (dispatch a g) < MAX_SAFE_INTEGER"
    using assms(1) by (simp add: store_inv_def)
  ultimately show ?thesis unfolding store_inv_def by (intro conjI)
qed

lemma genId_fields [simp]:
  "fst (genId g) = toString ((count g + 1) mod MAX_SAFE_INTEGER)"
  "snd (genId g) = g\<lparr> count := (count g + 1) mod MAX_SAFE_INTEGER \<rparr>"
  by (simp_all add: genId_def Let_def)

lemma toast_eq:
  "toast props g =
     (toString ((count g + 1) mod MAX_SAFE_INTEGER),
      dispatch (ADD_TOAST
         \<lparr> toast_id = toString ((count g + 1) mod MAX_SAFE_INTEGER),
           toast_props = (props(''id'' := None))(''open'' \<mapsto> JBool True,
             ''onOpenChange'' \<mapsto>
                JFn (DismissOnClose (toString ((count g + 1) mod MAX_SAFE_INTEGER)))) \<rparr>)
        (g\<lparr> count := (count g + 1) mod MAX_SAFE_INTEGER \<rparr>))"
  by (simp add: toast_def genId_def Let_def)

lemma toast_fields:
  "fst (toast props g) = toString ((count g + 1) mod MAX_SAFE_INTEGER)"
  "toasts (memoryState (snd (toast props g))) =
     take TOAST_LIMIT
       (\<lparr> toast_id = fst (toast props g),
          toast_props = (props(''id'' := None))(''open'' \<mapsto> JBool True,
             ''onOpenChange'' \<mapsto> JFn (DismissOnClose (fst (toast props g)))) \<rparr>
        # toasts (memoryState g))"
  "toastTimeouts (snd (toast props g)) = toastTimeouts g"
  "timers (snd (toast props g)) = timers g"
  "nextTimer (snd (toast props g)) = nextTimer g"
  "now (snd (toast props g)) = now g"
  "count (snd (toast props g)) = (count g + 1) mod MAX_SAFE_INTEGER"
  "listeners (snd (toast props g)) = listeners g"
  by (simp_all add: toast_eq)

lemma toast_inv:
  assumes "store_inv g"
  shows "store_inv (snd (toast props g))"
proof -
  have "timers_ok (snd (toast props g)) = timers_ok g"
    by (rule timers_ok_cong) (simp_all add: toast_fields)
  then show ?thesis
    using assms
    by (simp add: store_inv_def toast_fields TOAST_LIMIT_def MAX_SAFE_INTEGER_def)
qed

subsection \<open>Timers firing and time passing\<close>

lemma timeout_callback_fields [simp]:
  "toastTimeouts (timeout_callback k g) = (toastTimeouts g)(k := None)"
  "toasts (memoryState (timeout_callback k g)) =
     filter (\<lambda>t. toast_id t \<noteq> k) (toasts (memoryState g))"
  "timers (timeout_callback k g) = timers g"
  "nextTimer (timeout_callback k g) = nextTimer g"
  "now (timeout_callback k g) = now g"
  "count (timeout_callback k g) = count g"
  "listeners (timeout_callback k g) = listeners g"
  by (simp_all add: timeout_callback_def)

lemma fold_timeout_callback [simp]:
  "toastTimeouts (fold (\<lambda>tm. timeout_callback (callback_toastId tm)) L g) =
     (\<lambda>k. if k \<in> callback_toastId ` set L then None else toastTimeouts g k)"
  "toasts (memoryState (fold (\<lambda>tm. timeout_callback (callback_toastId tm)) L g)) =
     filter (\<lambda>t. toast_id t \<notin> callback_toastId ` set L) (toasts (memoryState g))"
  "timers (fold (\<lambda>tm. timeout_callback (callback_toastId tm)) L g) = timers g"
  "nextTimer (fold (\<lambda>tm. timeout_callback (callback_toastId tm)) L g) = nextTimer g"
  "now (fold (\<lambda>tm. timeout_callback (callback_toastId tm)) L g) = now g"
  "count (fold (\<lambda>tm. timeout_callback (callback_toastId tm)) L g) = count g"
  "listeners (fold (\<lambda>tm. timeout_callback (callback_toastId tm)) L g) = listeners g"
proof (induction L arbitrary: g)
  case Nil
  {
    case 1 show ?case by simp
  next
    case 2 show ?case by simp
  next
    case 3 show ?case by simp
  next
    case 4 show ?case by simp
  next
    case 5 show ?case by simp
  next
    case 6 show ?case by simp
  next
    case 7 show ?case by simp
  }
next
  case (Cons a L)
  {
    case 1 show ?case by (auto simp: Cons.IH fun_eq_iff)
  next
    case 2 show ?case by (simp add: Cons.IH conj_commute)
  next
    case 3 show ?case by (simp add: Cons.IH)
  next
    case 4 show ?case by (simp add: Cons.IH)
  next
    case 5 show ?case by (simp add: Cons.IH)
  next
    case 6 show ?case by (simp add: Cons.IH)
  next
    case 7 show ?case by (simp add: Cons.IH)
  }
qed

lemma elapse_fields [simp]:
  "toastTimeouts (elapse d g) =
     (\<lambda>k. if k \<in> callback_toastId ` {tm \<in> set (timers g). due tm \<le> now g + d}
          then None else toastTimeouts g k)"
  "toasts (memoryState (elapse d g)) =
     filter (\<lambda>t. toast_id t \<notin> callback_toastId ` {tm \<in> set (timers g). due tm \<le> now g + d})
       (toasts (memoryState g))"
  "timers (elapse d g) = filter (\<lambda>tm. \<not> due tm \<le> now g + d) (timers g)"
  "nextTimer (elapse d g) = nextTimer g"
  "now (elapse d g) = now g + d"
  "count (elapse d g) = count g"
  "listeners (elapse d g) = listeners g"
  by (simp_all add: elapse_def Let_def cong: if_cong)

lemma elapse_timers_ok:
  assumes "timers_ok g"
  shows "timers_ok (elapse d g)"
proof -
  have d: "distinct (map callback_toastId (timers g))"
    and e: "\<And>tm. tm \<in> set (timers g) \<Longrightarrow>
               toastTimeouts g (callback_toastId tm) = Some (timer_handle tm) \<and>
               due tm \<le> now g + TOAST_REMOVE_DELAY"
    and s: "dom (toastTimeouts g) \<subseteq> callback_toastId ` set (timers g)"
    using assms by (auto simp: timers_ok_def)
  have inj: "tm = tm'" if "tm \<in> set (timers g)" "tm' \<in> set (timers g)"
      "callback_toastId tm = callback_toastId tm'" for tm tm'
    using d that by (meson distinct_map inj_onD)
  have 1: "distinct (map callback_toastId (timers (elapse d g)))"
    using d by (simp add: distinct_map_filter)
  have 2: "toastTimeouts (elapse d g) (callback_toastId tm) = Some (timer_handle tm) \<and>
           now (elapse d g) < due tm \<and>
           due tm \<le> now (elapse d g) + TOAST_REMOVE_DELAY"
    if "tm \<in> set (timers (elapse d g))" for tm
  proof -
    from that have m: "tm \<in> set (timers g)" and late: "\<not> due tm \<le> now g + d" by simp_all
    have "callback_toastId tm \<notin> callback_toastId ` {tm \<in> set (timers g). due tm \<le> now g + d}"
      using inj [OF m] late by auto
    then show ?thesis using e [OF m] late by simp
  qed
  have 3: "dom (toastTimeouts (elapse d g)) \<subseteq> callback_toastId ` set (timers (elapse d g))"
  proof
    fix k assume "k \<in> dom (toastTimeouts (elapse d g))"
    then have out: "k \<notin> callback_toastId ` {tm \<in> set (timers g). due tm \<le> now g + d}"
      and "k \<in> dom (toastTimeouts g)"
      by (auto split: if_splits)
    then obtain tm where "tm \<in> set (timers g)" "callback_toastId tm = k"
      using s by auto
    then show "k \<in> callback_toastId ` set (timers (elapse d g))"
      using out by auto
  qed
  have all: "\<forall>tm \<in> set (timers (elapse d g)).
           toastTimeouts (elapse d g) (callback_toastId tm) = Some (timer_handle tm) \<and>
           now (elapse d g) < due tm \<and>
           due tm \<le> now (elapse d g) + TOAST_REMOVE_DELAY"
    by (intro ballI 2)
  show ?thesis unfolding timers_ok_def by (intro conjI) (fact 1 all 3)+
qed

lemma elapse_inv:
  assumes "store_inv g"
  shows "store_inv (elapse d g)"
proof -
  have "length (toasts (memoryState (elapse d g))) \<le> length (toasts (memoryState g))"
    by simp
  then have "length (toasts (memoryState (elapse d g))) \<le> TOAST_LIMIT"
    using assms unfolding store_inv_def by linarith
  moreover have "\<forall>t \<in> set (toasts (memoryState (elapse d g))).
      toast_id t = toString (count (elapse d g))"
    using assms by (simp add: store_inv_def)
  moreover have "toastTimeouts (elapse d g) [] = None"
    using assms by (simp add: store_inv_def)
  moreover have "count (elapse d g) < MAX_SAFE_INTEGER"
    using assms by (simp add: store_inv_def)
  ultimately show ?thesis
    using assms elapse_timers_ok [of g d] unfolding store_inv_def by blast
qed

subsection \<open>Every reachable store is consistent\<close>

lemma initial_inv: "store_inv initial"
  by (simp add: store_inv_def timers_ok_def initial_def MAX_SAFE_INTEGER_def)

lemma step_inv: "store_inv g \<Longrightarrow> store_inv (step e g)"
proof (cases e)
  case (Show props)
  assume "store_inv g" then show ?thesis using Show by (simp add: toast_inv)
next
  case (Update i props)
  assume "store_inv g" then show ?thesis using Update
    by (simp add: handle_update_def) (rule dispatch_inv, simp_all)
next
  case (Dismiss x)
  assume "store_inv g" then show ?thesis using Dismiss
    by (simp add: dismiss_def) (rule dispatch_inv, simp_all)
next
  case (Elapse d)
  assume "store_inv g" then show ?thesis using Elapse by (simp add: elapse_inv)
next
  case (Subscribe l)
  assume "store_inv g" then show ?thesis using Subscribe
    by (simp add: subscribe_def store_inv_def timers_ok_def)
next
  case (Unsubscribe l)
  assume "store_inv g" then show ?thesis using Unsubscribe
    by (simp add: unsubscribe_def store_inv_def timers_ok_def)
qed

lemma reachable_inv: "reachable g \<Longrightarrow> store_inv g"
  by (induction rule: reachable.induct) (simp_all add: initial_inv step_inv)

subsection \<open>Lists, and sequences of toasts\<close>

lemma take_append_take: "take n (xs @ take n ys) = take n (xs @ ys)"
  by simp

lemma take_append_le: "n \<le> length xs \<Longrightarrow> take n (xs @ ys) = take n xs"
  by simp

lemma toast_toasts:
  "toasts (memoryState (snd (toast p g))) =
     take TOAST_LIMIT
       (\<lparr> toast_id = fst (toast p g),
          toast_props = (p(''id'' := None))
                          (''open'' \<mapsto> JBool True,
                           ''onOpenChange'' \<mapsto> JFn (DismissOnClose (fst (toast p g)))) \<rparr>
        # toasts (memoryState g))"
  by (simp add: toast_eq)

lemma show_all_Cons: "show_all (p # ps) g = show_all ps (snd (toast p g))"
  by (simp add: show_all_def)

lemma length_shown: "length (shown ps g) = length ps"
  by (induction ps arbitrary: g) simp_all

lemma show_all_toasts:
  "toasts (memoryState (show_all (p # ps) g)) =
     take TOAST_LIMIT (rev (shown (p # ps) g) @ toasts (memoryState g))"
proof (induction ps arbitrary: p g)
  case Nil
  show ?case by (simp add: show_all_def toast_toasts)
next
  case (Cons q ps)
  have "toasts (memoryState (show_all (p # q # ps) g)) =
          take TOAST_LIMIT (rev (shown (q # ps) (snd (toast p g))) @
            toasts (memoryState (snd (toast p g))))"
    by (simp only: show_all_Cons [of p] Cons.IH)
  also have "\<dots> = take TOAST_LIMIT (rev (shown (q # ps) (snd (toast p g))) @
       (\<lparr> toast_id = fst (toast p g),
          toast_props = (p(''id'' := None))
                          (''open'' \<mapsto> JBool True,
                           ''onOpenChange'' \<mapsto> JFn (DismissOnClose (fst (toast p g)))) \<rparr>
        # toasts (memoryState g)))"
    by (simp only: toast_toasts take_append_take)
  also have "\<dots> = take TOAST_LIMIT (rev (shown (p # q # ps) g) @ toasts (memoryState g))"
    by simp
  finally show ?case .
qed

lemma fire_fields [simp]:
  "toastTimeouts (fire tm g) = (toastTimeouts g)(callback_toastId tm := None)"
  "toasts (memoryState (fire tm g)) =
     filter (\<lambda>t. toast_id t \<noteq> callback_toastId tm) (toasts (memoryState g))"
  "timers (fire tm g) = remove1 tm (timers g)"
  "delivered (fire tm g) =
     delivered g @ map (\<lambda>l. (l, memoryState (fire tm g))) (listeners g)"
  by (simp_all add: fire_def timeout_callback_def)

lemma spread_props:
  "toast_props (spread t p) k =
     (if k \<in> dom (pfields p) then pfields p k else toast_props t k)"
  by (auto simp: spread_def map_add_def split: option.splits)

lemma map_ident: "(\<And>x. x \<in> set xs \<Longrightarrow> f x = x) \<Longrightarrow> map f xs = xs"
  by (induction xs) simp_all

lemma filter_ident: "(\<And>x. x \<in> set xs \<Longrightarrow> P x) \<Longrightarrow> filter P xs = xs"
  by (induction xs) simp_all

lemma length_le_one_distinct: "length xs \<le> 1 \<Longrightarrow> distinct xs"
  by (cases xs) auto

subsection \<open>Dismissing\<close>

lemma reachable_dismiss: "reachable g \<Longrightarrow> reachable (dismiss x g)"
  using reachable.after [of g "Dismiss x"] by simp

lemma dismiss_fields [simp]:
  "toasts (memoryState (dismiss x g)) =
     map (\<lambda>t. if Some (toast_id t) = x \<or> x = None
               then t\<lparr> toast_props := (toast_props t)(''open'' \<mapsto> JBool False) \<rparr> else t)
       (toasts (memoryState g))"
  "now (dismiss x g) = now g"
  "count (dismiss x g) = count g"
  "listeners (dismiss x g) = listeners g"
  by (simp_all add: dismiss_def Let_def)

lemma dismiss_ids [simp]:
  "map toast_id (toasts (memoryState (dismiss x g))) = map toast_id (toasts (memoryState g))"
  by (simp add: comp_def if_distrib cong: if_cong)

lemma dismiss_queue:
  "toastTimeouts (dismiss x g) = toastTimeouts (snd (reducer (memoryState g) (DISMISS_TOAST x) g))"
  "timers (dismiss x g) = timers (snd (reducer (memoryState g) (DISMISS_TOAST x) g))"
  "nextTimer (dismiss x g) = nextTimer (snd (reducer (memoryState g) (DISMISS_TOAST x) g))"
  by (simp_all add: dismiss_def)

lemma reducer_dismiss_snd:
  "snd (reducer s (DISMISS_TOAST x) g) =
     (case x of
        Some i \<Rightarrow> if i \<noteq> [] then addToRemoveQueue i g
                  else fold addToRemoveQueue (map toast_id (toasts s)) g
      | None \<Rightarrow> fold addToRemoveQueue (map toast_id (toasts s)) g)"
  by (simp add: Let_def)

lemma dismiss_armed_id: "i \<noteq> [] \<Longrightarrow> toastTimeouts (dismiss (Some i) g) i \<noteq> None"
  by (simp add: dismiss_queue reducer_dismiss_snd addToRemoveQueue_armed)

lemma dismiss_armed_tracked:
  assumes "t \<in> set (toasts (memoryState g))"
  shows "toastTimeouts (dismiss (Some (toast_id t)) g) (toast_id t) \<noteq> None"
proof (cases "toast_id t = []")
  case True
  have "toast_id t \<in> set (map toast_id (toasts (memoryState g)))"
    using assms by simp
  then have "toastTimeouts (fold addToRemoveQueue (map toast_id (toasts (memoryState g))) g)
      (toast_id t) \<noteq> None"
    by (rule fold_addToRemoveQueue_armed)
  then show ?thesis using True
    by (simp add: dismiss_queue reducer_dismiss_snd)
next
  case False
  then show ?thesis by (rule dismiss_armed_id)
qed

lemma dismiss_armed_all:
  assumes "t \<in> set (toasts (memoryState g))"
  shows "toastTimeouts (dismiss None g) (toast_id t) \<noteq> None"
proof -
  have "toast_id t \<in> set (map toast_id (toasts (memoryState g)))"
    using assms by simp
  then have "toastTimeouts (fold addToRemoveQueue (map toast_id (toasts (memoryState g))) g)
      (toast_id t) \<noteq> None"
    by (rule fold_addToRemoveQueue_armed)
  then show ?thesis
    by (simp add: dismiss_queue reducer_dismiss_snd)
qed

lemma dismiss_pending_noop:
  assumes "\<And>i. x = Some i \<Longrightarrow> i \<noteq> [] \<Longrightarrow> toastTimeouts g i \<noteq> None"
    and "\<And>t. x = None \<or> x = Some [] \<Longrightarrow> t \<in> set (toasts (memoryState g))
           \<Longrightarrow> toastTimeouts g (toast_id t) \<noteq> None"
  shows "snd (reducer (memoryState g) (DISMISS_TOAST x) g) = g"
proof (cases "x = None \<or> x = Some []")
  case True
  have "\<forall>k \<in> set (map toast_id (toasts (memoryState g))). toastTimeouts g k \<noteq> None"
    using assms(2) [OF True] by simp
  then have "fold addToRemoveQueue (map toast_id (toasts (memoryState g))) g = g"
    by (rule fold_addToRemoveQueue_noop)
  then show ?thesis using True by (auto simp: reducer_dismiss_snd)
next
  case False
  then obtain i where i: "x = Some i" "i \<noteq> []" by auto
  then show ?thesis using assms(1) [OF i]
    by (simp add: reducer_dismiss_snd addToRemoveQueue_noop)
qed

lemma dismiss_again_queue:
  "snd (reducer (memoryState (dismiss x g)) (DISMISS_TOAST x) (dismiss x g)) = dismiss x g"
proof (rule dismiss_pending_noop)
  fix i assume "x = Some i" "i \<noteq> []"
  then show "toastTimeouts (dismiss x g) i \<noteq> None" by (simp add: dismiss_armed_id)
next
  fix t assume x: "x = None \<or> x = Some []" and "t \<in> set (toasts (memoryState (dismiss x g)))"
  then have "toast_id t \<in> set (map toast_id (toasts (memoryState (dismiss x g))))"
    by (simp del: dismiss_ids dismiss_fields)
  then have "toast_id t \<in> set (map toast_id (toasts (memoryState g)))"
    by (simp only: dismiss_ids)
  then have "toastTimeouts (fold addToRemoveQueue (map toast_id (toasts (memoryState g))) g)
      (toast_id t) \<noteq> None"
    by (rule fold_addToRemoveQueue_armed)
  then show "toastTimeouts (dismiss x g) (toast_id t) \<noteq> None"
    using x by (auto simp: dismiss_queue reducer_dismiss_snd)
qed

lemma dismiss_again_state:
  "memoryState (dismiss x (dismiss x g)) = memoryState (dismiss x g)"
  by (simp add: dismiss_def Let_def comp_def cong: if_cong)

lemma one_timer:
  "distinct (map f xs) \<Longrightarrow> k \<in> f ` set xs \<Longrightarrow> length (filter (\<lambda>x. f x = k) xs) = 1"
proof (induction xs)
  case Nil
  then show ?case by simp
next
  case (Cons a xs)
  show ?case
  proof (cases "f a = k")
    case True
    then have "k \<notin> f ` set xs" using Cons.prems(1) by auto
    then have "filter (\<lambda>x. f x = k) xs = []" by (auto simp: filter_empty_conv)
    then show ?thesis using True by simp
  next
    case False
    then show ?thesis using Cons by auto
  qed
qed

lemma pending_timer_due:
  assumes "store_inv g" and "toastTimeouts g k \<noteq> None" and "TOAST_REMOVE_DELAY \<le> d"
  shows "k \<in> callback_toastId ` {tm \<in> set (timers g). due tm \<le> now g + d}"
proof -
  have ok: "timers_ok g" using assms(1) by (simp add: store_inv_def)
  then obtain tm where tm: "tm \<in> set (timers g)" "callback_toastId tm = k"
    using assms(2) unfolding timers_ok_def by blast
  then have "due tm \<le> now g + TOAST_REMOVE_DELAY"
    using ok unfolding timers_ok_def by blast
  then have "due tm \<le> now g + d" using assms(3) by linarith
  then show ?thesis using tm by blast
qed

lemma elapse_removes:
  assumes "store_inv g" and "toastTimeouts g k \<noteq> None" and "TOAST_REMOVE_DELAY \<le> d"
  shows "k \<notin> toast_id ` set (toasts (memoryState (elapse d g))) \<and>
         toastTimeouts (elapse d g) k = None"
proof -
  have k: "k \<in> callback_toastId ` {tm \<in> set (timers g). due tm \<le> now g + d}"
    using assms by (rule pending_timer_due)
  have "toast_id t' \<noteq> k" if "t' \<in> set (toasts (memoryState (elapse d g)))" for t'
    using that k by auto
  moreover have "toastTimeouts (elapse d g) k = None"
    using k by simp
  ultimately show ?thesis by blast
qed

lemma dismiss_unknown_state:
  assumes "i \<notin> toast_id ` set (toasts (memoryState g))"
  shows "memoryState (dismiss (Some i) g) = memoryState g"
proof -
  have "map (\<lambda>t. if toast_id t = i
                   then t\<lparr> toast_props := (toast_props t)(''open'' \<mapsto> JBool False) \<rparr> else t)
             (toasts (memoryState g)) = toasts (memoryState g)"
    using assms by (intro map_ident) auto
  then show ?thesis by (simp add: dismiss_def Let_def)
qed

subsection \<open>Pending timers are never cancelled\<close>

lemma addToRemoveQueue_keeps_timers:
  "set (timers g) \<subseteq> set (timers (addToRemoveQueue k g))"
  by (auto simp: addToRemoveQueue_def setTimeout_def)

lemma fold_addToRemoveQueue_keeps_timers:
  "set (timers g) \<subseteq> set (timers (fold addToRemoveQueue ks g))"
proof (induction ks arbitrary: g)
  case Nil
  show ?case by simp
next
  case (Cons k ks)
  have "set (timers g) \<subseteq> set (timers (addToRemoveQueue k g))"
    by (rule addToRemoveQueue_keeps_timers)
  also have "\<dots> \<subseteq> set (timers (fold addToRemoveQueue ks (addToRemoveQueue k g)))"
    by (rule Cons.IH)
  finally show ?case by simp
qed

lemma dispatch_keeps_timers: "set (timers g) \<subseteq> set (timers (dispatch a g))"
proof (cases a)
  case (DISMISS_TOAST x)
  then show ?thesis
    using addToRemoveQueue_keeps_timers fold_addToRemoveQueue_keeps_timers
    by (simp add: reducer_dismiss_snd split: option.splits)
qed (simp_all split: option.splits)

lemma step_keeps_timer:
  assumes "tm \<in> set (timers g)"
  shows "tm \<in> set (timers (step e g)) \<or> (\<exists>d. e = Elapse d \<and> due tm \<le> now g + d)"
proof (cases e)
  case (Show props)
  have "set (timers g) \<subseteq> set (timers (snd (toast props g)))"
    using dispatch_keeps_timers [of "g\<lparr> count := (count g + 1) mod MAX_SAFE_INTEGER \<rparr>"]
    by (simp add: toast_eq)
  then show ?thesis using assms Show by auto
next
  case (Update i props)
  then show ?thesis
    using assms
      dispatch_keeps_timers [of g "UPDATE_TOAST \<lparr> pid = Some i, pfields = toast_props props \<rparr>"]
    by (auto simp: handle_update_def)
next
  case (Dismiss x)
  then show ?thesis
    using assms dispatch_keeps_timers [of g "DISMISS_TOAST x"]
    by (auto simp: dismiss_def)
next
  case (Elapse d)
  then show ?thesis using assms by auto
next
  case (Subscribe l)
  then show ?thesis using assms by (simp add: subscribe_def)
next
  case (Unsubscribe l)
  then show ?thesis using assms by (simp add: unsubscribe_def)
qed

lemma elapse_fires:
  assumes "tm \<in> set (timers g)" and "due tm \<le> now g + d"
  shows "callback_toastId tm \<notin> toast_id ` set (toasts (memoryState (elapse d g))) \<and>
         toastTimeouts (elapse d g) (callback_toastId tm) = None"
proof -
  have k: "callback_toastId tm \<in> callback_toastId ` {tm \<in> set (timers g). due tm \<le> now g + d}"
    using assms by blast
  have "callback_toastId tm \<notin> toast_id ` set (toasts (memoryState (elapse d g)))"
  proof
    assume "callback_toastId tm \<in> toast_id ` set (toasts (memoryState (elapse d g)))"
    then obtain t' where "t' \<in> set (toasts (memoryState (elapse d g)))"
      and "toast_id t' = callback_toastId tm"
      by (auto simp del: elapse_fields)
    then show False using k by simp
  qed
  moreover have "toastTimeouts (elapse d g) (callback_toastId tm) = None"
    using k by simp
  ultimately show ?thesis by (rule conjI)
qed

subsection \<open>Ids made from the counter\<close>

lemma digit_char_code: "d < 10 \<Longrightarrow> of_char (digit_char d) = (48::nat) + d"
proof -
  assume "d < 10"
  then have "d \<in> {0, 1, 2, 3, 4, 5, 6, 7, 8, 9}" by auto
  then show ?thesis by (auto simp: digit_char_def)
qed

lemma digit_char_inj:
  assumes "d < 10" and "e < 10" and "digit_char d = digit_char e"
  shows "d = e"
proof -
  have "(of_char (digit_char d) :: nat) = of_char (digit_char e)"
    by (simp only: assms(3))
  then have "(48::nat) + d = 48 + e"
    by (simp only: digit_char_code [OF assms(1)] digit_char_code [OF assms(2)])
  then show ?thesis by simp
qed

lemma toString_inj: "toString a = toString b \<Longrightarrow> a = b"
proof (induction a arbitrary: b rule: toString.induct)
  case (1 n)
  show ?case
  proof (cases "n < 10")
    case small: True
    show ?thesis
    proof (cases "b < 10")
      case True
      then show ?thesis
        using small "1.prems" digit_char_inj [of n b]
        by (simp add: toString.simps [of n] toString.simps [of b])
    next
      case False
      then have "[digit_char n] = toString (b div 10) @ [digit_char (b mod 10)]"
        using small "1.prems" by (simp add: toString.simps [of n] toString.simps [of b])
      then have "toString (b div 10) = []" by simp
      then show ?thesis using toString_nonempty by blast
    qed
  next
    case big: False
    show ?thesis
    proof (cases "b < 10")
      case True
      then have "toString (n div 10) @ [digit_char (n mod 10)] = [digit_char b]"
        using big "1.prems" by (simp add: toString.simps [of n] toString.simps [of b])
      then have "toString (n div 10) = []" by simp
      then show ?thesis using toString_nonempty by blast
    next
      case False
      then have "toString (n div 10) @ [digit_char (n mod 10)] =
                 toString (b div 10) @ [digit_char (b mod 10)]"
        using big "1.prems" by (simp add: toString.simps [of n] toString.simps [of b])
      then have q: "toString (n div 10) = toString (b div 10)"
        and r: "digit_char (n mod 10) = digit_char (b mod 10)"
        by simp_all
      have "n div 10 = b div 10" using "1.IH" [OF big q] .
      moreover have "n mod 10 = b mod 10"
        using r by (intro digit_char_inj) simp_all
      ultimately show ?thesis by (metis div_mult_mod_eq)
    qed
  qed
qed

lemma next_count_differs:
  "c < MAX_SAFE_INTEGER \<Longrightarrow> (c + 1) mod MAX_SAFE_INTEGER \<noteq> c"
proof -
  assume c: "c < MAX_SAFE_INTEGER"
  show ?thesis
  proof (cases "c + 1 < MAX_SAFE_INTEGER")
    case True
    then show ?thesis by simp
  next
    case False
    then have "c + 1 = MAX_SAFE_INTEGER" using c by simp
    then have "(c + 1) mod MAX_SAFE_INTEGER = 0" and "c \<noteq> 0"
      by (simp_all add: MAX_SAFE_INTEGER_def)
    then show ?thesis by simp
  qed
qed

lemma fresh_id:
  assumes "store_inv g"
  shows "fst (toast p g) \<notin> toast_id ` set (toasts (memoryState g))"
proof
  assume "fst (toast p g) \<in> toast_id ` set (toasts (memoryState g))"
  then obtain t where "t \<in> set (toasts (memoryState g))" and "toast_id t = fst (toast p g)"
    by auto
  then have "toString (count g) = toString ((count g + 1) mod MAX_SAFE_INTEGER)"
    using assms by (auto simp: store_inv_def toast_fields)
  then have "count g = (count g + 1) mod MAX_SAFE_INTEGER" by (rule toString_inj)
  moreover have "count g < MAX_SAFE_INTEGER" using assms by (simp add: store_inv_def)
  ultimately show False using next_count_differs [of "count g"] by simp
qed

lemma fold_addToRemoveQueue_timers:
  "\<exists>new. timers (fold addToRemoveQueue ks g) = timers g @ new \<and>
     distinct (map callback_toastId new) \<and>
     (\<forall>tm \<in> set new.
        due tm = now g + TOAST_REMOVE_DELAY \<and>
        callback_toastId tm \<in> set ks \<and>
        toastTimeouts g (callback_toastId tm) = None \<and>
        toastTimeouts (fold addToRemoveQueue ks g) (callback_toastId tm) =
          Some (timer_handle tm))"
proof (induction ks arbitrary: g)
  case Nil
  show ?case by simp
next
  case (Cons k ks)
  show ?case
  proof (cases "toastTimeouts g k = None")
    case False
    then have same: "addToRemoveQueue k g = g" by (simp add: addToRemoveQueue_noop)
    obtain new where new: "timers (fold addToRemoveQueue ks g) = timers g @ new"
      "distinct (map callback_toastId new)"
      "\<forall>tm \<in> set new.
        due tm = now g + TOAST_REMOVE_DELAY \<and>
        callback_toastId tm \<in> set ks \<and>
        toastTimeouts g (callback_toastId tm) = None \<and>
        toastTimeouts (fold addToRemoveQueue ks g) (callback_toastId tm) =
          Some (timer_handle tm)"
      using Cons.IH [of g] by blast
    show ?thesis
      by (rule exI [of _ new]) (use new same in auto)
  next
    case True
    define g1 where "g1 = addToRemoveQueue k g"
    define tmk where "tmk = \<lparr> timer_handle = nextTimer g, due = now g + TOAST_REMOVE_DELAY,
        callback_toastId = k \<rparr>"
    have t1: "timers g1 = timers g @ [tmk]"
      and m1: "toastTimeouts g1 = (toastTimeouts g)(k \<mapsto> nextTimer g)"
      and n1: "now g1 = now g"
      using True by (simp_all add: g1_def tmk_def addToRemoveQueue_def setTimeout_def)
    obtain new where new: "timers (fold addToRemoveQueue ks g1) = timers g1 @ new"
      "distinct (map callback_toastId new)"
      "\<forall>tm \<in> set new.
        due tm = now g1 + TOAST_REMOVE_DELAY \<and>
        callback_toastId tm \<in> set ks \<and>
        toastTimeouts g1 (callback_toastId tm) = None \<and>
        toastTimeouts (fold addToRemoveQueue ks g1) (callback_toastId tm) =
          Some (timer_handle tm)"
      using Cons.IH [of g1] by blast
    have f: "fold addToRemoveQueue (k # ks) g = fold addToRemoveQueue ks g1"
      by (simp add: g1_def)
    have kept: "toastTimeouts (fold addToRemoveQueue ks g1) k = Some (nextTimer g)"
      using fold_addToRemoveQueue_keeps [of g1 k ks] by (simp add: m1)
    have notk: "callback_toastId tm \<noteq> k" if "tm \<in> set new" for tm
      using new(3) that by (auto simp: m1)
    have a: "timers (fold addToRemoveQueue (k # ks) g) = timers g @ (tmk # new)"
      unfolding f using new(1) t1 by simp
    have b: "distinct (map callback_toastId (tmk # new))"
      using new(2) notk by (auto simp: tmk_def)
    have c: "\<forall>tm \<in> set (tmk # new).
        due tm = now g + TOAST_REMOVE_DELAY \<and>
        callback_toastId tm \<in> set (k # ks) \<and>
        toastTimeouts g (callback_toastId tm) = None \<and>
        toastTimeouts (fold addToRemoveQueue (k # ks) g) (callback_toastId tm) =
          Some (timer_handle tm)"
    proof
      fix tm assume "tm \<in> set (tmk # new)"
      then consider "tm = tmk" | "tm \<in> set new" by auto
      then show "due tm = now g + TOAST_REMOVE_DELAY \<and>
        callback_toastId tm \<in> set (k # ks) \<and>
        toastTimeouts g (callback_toastId tm) = None \<and>
        toastTimeouts (fold addToRemoveQueue (k # ks) g) (callback_toastId tm) =
          Some (timer_handle tm)"
      proof cases
        case 1
        then show ?thesis unfolding f using True kept by (simp add: tmk_def)
      next
        case 2
        then have "due tm = now g1 + TOAST_REMOVE_DELAY"
          and "callback_toastId tm \<in> set ks"
          and "toastTimeouts g1 (callback_toastId tm) = None"
          and "toastTimeouts (fold addToRemoveQueue ks g1) (callback_toastId tm) =
                 Some (timer_handle tm)"
          using new(3) by blast+
        then show ?thesis unfolding f using notk [OF 2] by (simp add: n1 m1)
      qed
    qed
    show ?thesis
      by (rule exI [of _ "tmk # new"]) (intro conjI a b c)
  qed
qed

lemma reducer_dismiss_all_timers:
  "\<exists>new. timers (snd (reducer s (DISMISS_TOAST None) g)) = timers g @ new \<and>
     distinct (map callback_toastId new) \<and>
     (\<forall>tm \<in> set new.
        due tm = now g + TOAST_REMOVE_DELAY \<and>
        callback_toastId tm \<in> toast_id ` set (toasts s) \<and>
        toastTimeouts g (callback_toastId tm) = None \<and>
        toastTimeouts (snd (reducer s (DISMISS_TOAST None) g)) (callback_toastId tm) =
          Some (timer_handle tm))"
  using fold_addToRemoveQueue_timers [of "map toast_id (toasts s)" g]
  by (simp add: reducer_dismiss_snd)

subsection \<open>Timers that have fired, and timers not yet due\<close>

lemma timer_unique:
  assumes "timers_ok g" and "tm \<in> set (timers g)" and "tm' \<in> set (timers g)"
    and "callback_toastId tm = callback_toastId tm'"
  shows "tm = tm'"
proof -
  have "distinct (map callback_toastId (timers g))"
    using assms(1) by (simp add: timers_ok_def)
  then show ?thesis using assms(2-4) by (meson distinct_map inj_onD)
qed

lemma elapse_fired_gone:
  assumes "timers_ok g" and "tm \<in> set (timers g)" and "due tm \<le> now g + d"
  shows "callback_toastId tm \<notin> callback_toastId ` set (timers (elapse d g))"
proof
  assume "callback_toastId tm \<in> callback_toastId ` set (timers (elapse d g))"
  then obtain tm' where m: "tm' \<in> set (timers g)" and late: "\<not> due tm' \<le> now g + d"
    and "callback_toastId tm = callback_toastId tm'"
    by auto
  then have "tm = tm'" using timer_unique [OF assms(1,2)] by blast
  then show False using assms(3) late by simp
qed

lemma elapse_not_due_stays:
  assumes "timers_ok g" and "tm \<in> set (timers g)" and "now g + d < due tm"
  shows "callback_toastId tm \<notin>
           callback_toastId ` {tm \<in> set (timers g). due tm \<le> now g + d}"
proof
  assume "callback_toastId tm \<in>
           callback_toastId ` {tm \<in> set (timers g). due tm \<le> now g + d}"
  then obtain tm' where m: "tm' \<in> set (timers g)" and early: "due tm' \<le> now g + d"
    and "callback_toastId tm = callback_toastId tm'"
    by auto
  then have "tm = tm'" using timer_unique [OF assms(1,2)] by blast
  then show False using assms(3) early by simp
qed

lemma elapse_zero:
  assumes "store_inv g"
  shows "toasts (memoryState (elapse 0 g)) = toasts (memoryState g)"
    and "toastTimeouts (elapse 0 g) = toastTimeouts g"
    and "timers (elapse 0 g) = timers g"
proof -
  have later: "\<forall>tm \<in> set (timers g). now g < due tm"
    using assms by (simp add: store_inv_def timers_ok_def)
  then have e: "{tm \<in> set (timers g). due tm \<le> now g + 0} = {}"
    by auto
  show "toasts (memoryState (elapse 0 g)) = toasts (memoryState g)"
    by (simp only: elapse_fields e) simp
  show "toastTimeouts (elapse 0 g) = toastTimeouts g"
    by (simp only: elapse_fields e) simp
  show "timers (elapse 0 g) = timers g"
    using later by (auto simp: filter_id_conv)
qed


lemma timers_ok_pending:
  assumes "timers_ok g" and "toastTimeouts g k \<noteq> None"
  shows "\<exists>tm \<in> set (timers g). callback_toastId tm = k"
proof -
  have "dom (toastTimeouts g) \<subseteq> callback_toastId ` set (timers g)"
    using assms(1) by (simp add: timers_ok_def)
  moreover have "k \<in> dom (toastTimeouts g)" using assms(2) by (simp add: domIff)
  ultimately have "k \<in> callback_toastId ` set (timers g)" by (rule subsetD)
  then show ?thesis by auto
qed

lemma timers_ok_entry:
  assumes "timers_ok g" and "tm \<in> set (timers g)"
  shows "toastTimeouts g (callback_toastId tm) = Some (timer_handle tm)"
    and "now g < due tm" and "due tm \<le> now g + TOAST_REMOVE_DELAY"
  using assms by (simp_all add: timers_ok_def)

lemma dismiss_new_timer:
  assumes "store_inv g" and "t \<in> set (toasts (memoryState g))"
    and "toastTimeouts g (toast_id t) = None"
    and "x = Some (toast_id t) \<or> x = None"
  shows "\<exists>tm \<in> set (timers (dismiss x g)).
           callback_toastId tm = toast_id t \<and> due tm = now g + TOAST_REMOVE_DELAY"
proof (cases x)
  case (Some i)
  then have i: "i = toast_id t" using assms(4) by simp
  have "toast_id t \<noteq> []"
    using store_inv_ids_nonempty [OF assms(1)] assms(2) by blast
  then have "timers (dismiss (Some (toast_id t)) g) =
      timers g @ [\<lparr> timer_handle = nextTimer g, due = now g + TOAST_REMOVE_DELAY,
                     callback_toastId = toast_id t \<rparr>]"
    using assms(3)
    by (simp add: dismiss_queue reducer_dismiss_snd addToRemoveQueue_def setTimeout_def)
  then show ?thesis using Some i by simp
next
  case None
  obtain new where new: "timers (dismiss None g) = timers g @ new"
    and props: "\<forall>tm \<in> set new. due tm = now g + TOAST_REMOVE_DELAY"
    using reducer_dismiss_all_timers [of "memoryState g" g] by (auto simp: dismiss_queue)
  have ok: "timers_ok g" using assms(1) by (simp add: store_inv_def)
  have "timers_ok (dismiss None g)"
    unfolding dismiss_def using ok by (rule dispatch_timers_ok)
  moreover have "toastTimeouts (dismiss None g) (toast_id t) \<noteq> None"
    using assms(2) by (rule dismiss_armed_all)
  ultimately obtain tm where tm: "tm \<in> set (timers (dismiss None g))"
    "callback_toastId tm = toast_id t"
    using timers_ok_pending by blast
  have "tm \<notin> set (timers g)"
  proof
    assume "tm \<in> set (timers g)"
    then have "toastTimeouts g (callback_toastId tm) = Some (timer_handle tm)"
      using ok by (intro timers_ok_entry)
    then show False using assms(3) tm(2) by simp
  qed
  then have "tm \<in> set new" using tm(1) new by simp
  then have "due tm = now g + TOAST_REMOVE_DELAY" using props by blast
  then show ?thesis using tm None by blast
qed

lemma dismiss_stays:
  assumes "store_inv g" and "store_inv (dismiss x g)" and "t \<in> set (toasts (memoryState g))"
    and "toastTimeouts g (toast_id t) = None"
    and "x = Some (toast_id t) \<or> x = None"
    and "d < TOAST_REMOVE_DELAY"
  shows "toast_id t \<in> toast_id ` set (toasts (memoryState (elapse d (dismiss x g)))) \<and>
         toastTimeouts (elapse d (dismiss x g)) (toast_id t) \<noteq> None"
proof -
  obtain tm where tm: "tm \<in> set (timers (dismiss x g))" "callback_toastId tm = toast_id t"
    "due tm = now g + TOAST_REMOVE_DELAY"
    using dismiss_new_timer [OF assms(1,3,4,5)] by blast
  have ok: "timers_ok (dismiss x g)" using assms(2) by (simp add: store_inv_def)
  have "now (dismiss x g) + d < due tm" using tm(3) assms(6) by simp
  then have out: "toast_id t \<notin> callback_toastId `
      {tm \<in> set (timers (dismiss x g)). due tm \<le> now (dismiss x g) + d}"
    using elapse_not_due_stays [OF ok tm(1), of d] tm(2) by simp
  have "toast_id t \<in> set (map toast_id (toasts (memoryState (dismiss x g))))"
    using assms(3) by (simp only: dismiss_ids) simp
  then obtain t' where t': "t' \<in> set (toasts (memoryState (dismiss x g)))"
    "toast_id t' = toast_id t"
    by (auto simp del: dismiss_fields dismiss_ids)
  have "t' \<in> set (toasts (memoryState (elapse d (dismiss x g))))"
    using t' out by (simp only: elapse_fields) simp
  then have a: "toast_id t \<in> toast_id ` set (toasts (memoryState (elapse d (dismiss x g))))"
    using t'(2) by (metis imageI)
  have "toastTimeouts (dismiss x g) (toast_id t) \<noteq> None"
    using assms(3,5) dismiss_armed_tracked dismiss_armed_all by blast
  then have b: "toastTimeouts (elapse d (dismiss x g)) (toast_id t) \<noteq> None"
    using out by (simp only: elapse_fields) simp
  show ?thesis using a b by (rule conjI)
qed

section \<open>The claims\<close>

subsection \<open>Capacity (C1)\<close>

text \<open>
  Claim C1. After any non-empty sequence of \<^verbatim>\<open>toast\<close> calls, the tracked list is the first
  \<open>TOAST_LIMIT\<close> elements of the toasts just built, most recent first, followed by the
  ones tracked before; so it is never longer than \<open>TOAST_LIMIT\<close>, and once at least
  \<open>TOAST_LIMIT\<close> toasts have been shown it is exactly the \<open>TOAST_LIMIT\<close> most recent ones.
  In every reachable store the list is no longer than \<open>TOAST_LIMIT\<close>.
\<close>

theorem toast_limit_most_recent:
  "toasts (memoryState (show_all (p # ps) g)) =
     take TOAST_LIMIT (rev (shown (p # ps) g) @ toasts (memoryState g)) \<and>
   length (toasts (memoryState (show_all (p # ps) g))) \<le> TOAST_LIMIT \<and>
   (TOAST_LIMIT \<le> length (p # ps) \<longrightarrow>
      toasts (memoryState (show_all (p # ps) g)) = take TOAST_LIMIT (rev (shown (p # ps) g))) \<and>
   (reachable g \<longrightarrow> length (toasts (memoryState g)) \<le> TOAST_LIMIT)"
proof -
  have a: "toasts (memoryState (show_all (p # ps) g)) =
     take TOAST_LIMIT (rev (shown (p # ps) g) @ toasts (memoryState g))"
    by (rule show_all_toasts)
  have b: "length (toasts (memoryState (show_all (p # ps) g))) \<le> TOAST_LIMIT"
    unfolding a by simp
  have c: "toasts (memoryState (show_all (p # ps) g)) = take TOAST_LIMIT (rev (shown (p # ps) g))"
    if "TOAST_LIMIT \<le> length (p # ps)"
  proof -
    have "TOAST_LIMIT \<le> length (rev (shown (p # ps) g))"
      using that by (simp only: length_rev length_shown)
    then show ?thesis unfolding a by (rule take_append_le)
  qed
  have d: "length (toasts (memoryState g)) \<le> TOAST_LIMIT" if "reachable g"
    using reachable_inv [OF that] by (simp add: store_inv_def)
  show ?thesis using a b c d by blast
qed

theorem toast_limit_most_recent_witness:
  "map toast_id (toasts (memoryState
      (show_all [[''title'' \<mapsto> JStr ''A''], [''title'' \<mapsto> JStr ''B'']] initial))) = [''2'']
   \<and> map (\<lambda>t. toast_props t ''title'') (toasts (memoryState
      (show_all [[''title'' \<mapsto> JStr ''A''], [''title'' \<mapsto> JStr ''B'']] initial)))
       = [Some (JStr ''B'')]
   \<and> length (toasts (memoryState initial)) \<le> TOAST_LIMIT"
  using toast_limit_most_recent [of "[''title'' \<mapsto> JStr ''A'']" "[[''title'' \<mapsto> JStr ''B'']]" initial]
    reachable.start
  by (simp add: toast_eq initial_def TOAST_LIMIT_def MAX_SAFE_INTEGER_def toString.simps
        digit_char_def)

subsection \<open>Removal and the pending timer (C2); the reducer and its effects (C3)\<close>

text \<open>
  Claim C2 as stated fails. After \<^verbatim>\<open>toast({title: "X"})\<close> and \<^verbatim>\<open>dismiss("1")\<close> the toast
  \<^verbatim>\<open>"1"\<close> is tracked and its timer is pending. Evaluating the exported reducer there on
  \<^verbatim>\<open>REMOVE_TOAST\<close> for \<^verbatim>\<open>"1"\<close> returns the state without the toast, and leaves the map entry
  and the timer as they are; when the delay has passed the timer still fires, and the one
  listener is called a third time.
\<close>

theorem remove_leaves_timer_counterexample:
  "map toast_id (toasts (memoryState
      (dismiss (Some ''1'') (snd (toast [''title'' \<mapsto> JStr ''X''] (subscribe 7 initial))))))
     = [''1''] \<and>
   toasts (fst (reducer
      (memoryState
        (dismiss (Some ''1'') (snd (toast [''title'' \<mapsto> JStr ''X''] (subscribe 7 initial)))))
      (REMOVE_TOAST (Some ''1''))
      (dismiss (Some ''1'') (snd (toast [''title'' \<mapsto> JStr ''X''] (subscribe 7 initial))))))
     = [] \<and>
   toastTimeouts (snd (reducer
      (memoryState
        (dismiss (Some ''1'') (snd (toast [''title'' \<mapsto> JStr ''X''] (subscribe 7 initial)))))
      (REMOVE_TOAST (Some ''1''))
      (dismiss (Some ''1'') (snd (toast [''title'' \<mapsto> JStr ''X''] (subscribe 7 initial))))))
     ''1'' = Some 0 \<and>
   timers (snd (reducer
      (memoryState
        (dismiss (Some ''1'') (snd (toast [''title'' \<mapsto> JStr ''X''] (subscribe 7 initial)))))
      (REMOVE_TOAST (Some ''1''))
      (dismiss (Some ''1'') (snd (toast [''title'' \<mapsto> JStr ''X''] (subscribe 7 initial))))))
     = [\<lparr> timer_handle = 0, due = 1000000, callback_toastId = ''1'' \<rparr>] \<and>
   length (delivered (snd (reducer
      (memoryState
        (dismiss (Some ''1'') (snd (toast [''title'' \<mapsto> JStr ''X''] (subscribe 7 initial)))))
      (REMOVE_TOAST (Some ''1''))
      (dismiss (Some ''1'') (snd (toast [''title'' \<mapsto> JStr ''X''] (subscribe 7 initial)))))))
     = 2 \<and>
   length (delivered (elapse 1000000 (snd (reducer
      (memoryState
        (dismiss (Some ''1'') (snd (toast [''title'' \<mapsto> JStr ''X''] (subscribe 7 initial)))))
      (REMOVE_TOAST (Some ''1''))
      (dismiss (Some ''1'') (snd (toast [''title'' \<mapsto> JStr ''X''] (subscribe 7 initial))))))))
     = 3"
  by (simp add: toast_eq dismiss_def subscribe_def initial_def TOAST_LIMIT_def
        TOAST_REMOVE_DELAY_def MAX_SAFE_INTEGER_def toString.simps digit_char_def
        addToRemoveQueue_def setTimeout_def elapse_def timeout_callback_def Let_def)

text \<open>
  Claim C2, as amended. Evaluating the reducer on \<^verbatim>\<open>REMOVE_TOAST\<close> for an id returns the state
  without the toasts bearing it, and leaves \<^verbatim>\<open>toastTimeouts\<close> and the pending timers as they
  are: nothing is cancelled. The module dispatches \<^verbatim>\<open>REMOVE_TOAST\<close> in a timer's callback
  only, which deletes the id's entry of \<^verbatim>\<open>toastTimeouts\<close>, removes the toasts bearing the id
  and calls every listener with the new state. In a reachable store, once the time a
  pending timer is due has passed, \<^verbatim>\<open>toastTimeouts\<close> has no entry for its id, no timer for
  that id is pending and no tracked toast bears it.
\<close>

theorem remove_leaves_timer:
  "toasts (fst (reducer s (REMOVE_TOAST (Some i)) g)) =
     filter (\<lambda>t. toast_id t \<noteq> i) (toasts s) \<and>
   toastTimeouts (snd (reducer s (REMOVE_TOAST (Some i)) g)) = toastTimeouts g \<and>
   timers (snd (reducer s (REMOVE_TOAST (Some i)) g)) = timers g \<and>
   toasts (memoryState (timeout_callback i g)) =
     filter (\<lambda>t. toast_id t \<noteq> i) (toasts (memoryState g)) \<and>
   toastTimeouts (timeout_callback i g) = (toastTimeouts g)(i := None) \<and>
   timers (timeout_callback i g) = timers g \<and>
   delivered (timeout_callback i g) =
     delivered g @ map (\<lambda>l. (l, memoryState (timeout_callback i g))) (listeners g) \<and>
   (reachable g \<longrightarrow>
      (\<forall>tm \<in> set (timers g). due tm \<le> now g + d \<longrightarrow>
         toastTimeouts (elapse d g) (callback_toastId tm) = None \<and>
         callback_toastId tm \<notin> callback_toastId ` set (timers (elapse d g)) \<and>
         callback_toastId tm \<notin> toast_id ` set (toasts (memoryState (elapse d g)))))"
proof -
  have r: "\<forall>tm \<in> set (timers g). due tm \<le> now g + d \<longrightarrow>
         toastTimeouts (elapse d g) (callback_toastId tm) = None \<and>
         callback_toastId tm \<notin> callback_toastId ` set (timers (elapse d g)) \<and>
         callback_toastId tm \<notin> toast_id ` set (toasts (memoryState (elapse d g)))"
    if "reachable g"
  proof (intro ballI impI)
    fix tm assume tm: "tm \<in> set (timers g)" "due tm \<le> now g + d"
    have ok: "timers_ok g" using reachable_inv [OF that] by (simp add: store_inv_def)
    show "toastTimeouts (elapse d g) (callback_toastId tm) = None \<and>
         callback_toastId tm \<notin> callback_toastId ` set (timers (elapse d g)) \<and>
         callback_toastId tm \<notin> toast_id ` set (toasts (memoryState (elapse d g)))"
      using elapse_fires [OF tm] elapse_fired_gone [OF ok tm] by (intro conjI) blast+
  qed
  have d: "delivered (timeout_callback i g) =
     delivered g @ map (\<lambda>l. (l, memoryState (timeout_callback i g))) (listeners g)"
    by (simp add: timeout_callback_def)
  show ?thesis using r d by simp
qed

theorem remove_leaves_timer_witness:
  "toastTimeouts (elapse 1000000
      (dismiss (Some ''1'') (snd (toast [''title'' \<mapsto> JStr ''X''] (subscribe 7 initial)))))
     ''1'' = None \<and>
   ''1'' \<notin> callback_toastId ` set (timers (elapse 1000000
      (dismiss (Some ''1'') (snd (toast [''title'' \<mapsto> JStr ''X''] (subscribe 7 initial)))))) \<and>
   ''1'' \<notin> toast_id ` set (toasts (memoryState (elapse 1000000
      (dismiss (Some ''1'') (snd (toast [''title'' \<mapsto> JStr ''X''] (subscribe 7 initial)))))))"
proof -
  have "reachable (step (Dismiss (Some ''1''))
      (step (Show [''title'' \<mapsto> JStr ''X'']) (step (Subscribe 7) initial)))"
    by (intro reachable.intros)
  then have r: "reachable
      (dismiss (Some ''1'') (snd (toast [''title'' \<mapsto> JStr ''X''] (subscribe 7 initial))))"
    by simp
  have t: "timers (dismiss (Some ''1'')
        (snd (toast [''title'' \<mapsto> JStr ''X''] (subscribe 7 initial)))) =
      [\<lparr> timer_handle = 0, due = 1000000, callback_toastId = ''1'' \<rparr>]"
    and n: "now (dismiss (Some ''1'')
        (snd (toast [''title'' \<mapsto> JStr ''X''] (subscribe 7 initial)))) = 0"
    by (simp_all add: dismiss_queue toast_fields subscribe_def initial_def
        TOAST_LIMIT_def MAX_SAFE_INTEGER_def TOAST_REMOVE_DELAY_def toString.simps
        digit_char_def addToRemoveQueue_def setTimeout_def Let_def)
  have m: "\<lparr> timer_handle = 0, due = 1000000, callback_toastId = ''1'' \<rparr> \<in>
      set (timers (dismiss (Some ''1'')
        (snd (toast [''title'' \<mapsto> JStr ''X''] (subscribe 7 initial)))))"
    by (simp add: t)
  have u: "due \<lparr> timer_handle = 0, due = 1000000, callback_toastId = ''1'' \<rparr> \<le>
      now (dismiss (Some ''1'')
        (snd (toast [''title'' \<mapsto> JStr ''X''] (subscribe 7 initial)))) + 1000000"
    by (simp add: n)
  have c: "callback_toastId \<lparr> timer_handle = 0, due = 1000000, callback_toastId = ''1'' \<rparr>
      = ''1''"
    by simp
  have "\<forall>tm \<in> set (timers (dismiss (Some ''1'')
        (snd (toast [''title'' \<mapsto> JStr ''X''] (subscribe 7 initial))))).
      due tm \<le> now (dismiss (Some ''1'')
        (snd (toast [''title'' \<mapsto> JStr ''X''] (subscribe 7 initial)))) + 1000000 \<longrightarrow>
         toastTimeouts (elapse 1000000 (dismiss (Some ''1'')
           (snd (toast [''title'' \<mapsto> JStr ''X''] (subscribe 7 initial)))))
           (callback_toastId tm) = None \<and>
         callback_toastId tm \<notin> callback_toastId ` set (timers (elapse 1000000
           (dismiss (Some ''1'') (snd (toast [''title'' \<mapsto> JStr ''X''] (subscribe 7 initial)))))) \<and>
         callback_toastId tm \<notin> toast_id ` set (toasts (memoryState (elapse 1000000
           (dismiss (Some ''1'') (snd (toast [''title'' \<mapsto> JStr ''X''] (subscribe 7 initial)))))))"
    using remove_leaves_timer [of "\<lparr> toasts = [] \<rparr>" "''1''"
      "dismiss (Some ''1'') (snd (toast [''title'' \<mapsto> JStr ''X''] (subscribe 7 initial)))"
      1000000] r
    by (elim conjE) (erule mp, assumption)
  from bspec [OF this m] u show ?thesis unfolding c by (rule mp)
qed




subsection \<open>Showing a toast (C5)\<close>




subsection \<open>Updating a toast (C6); unknown ids (C8)\<close>

text \<open>
  Claim C6. Dispatching \<^verbatim>\<open>UPDATE_TOAST\<close> with a patch keeps the length and order of the
  list. In a toast whose id is the patch's, every property the patch has takes the
  patch's value, every property the patch does not have keeps its value, and the id
  stays; every other toast is left as it is.
\<close>

theorem update_merges:
  assumes "n < length (toasts (memoryState g))"
  shows "length (toasts (memoryState (dispatch (UPDATE_TOAST p) g))) =
           length (toasts (memoryState g)) \<and>
         (Some (toast_id (toasts (memoryState g) ! n)) = pid p \<longrightarrow>
            toast_id (toasts (memoryState (dispatch (UPDATE_TOAST p) g)) ! n) =
              toast_id (toasts (memoryState g) ! n) \<and>
            (\<forall>k. (k \<in> dom (pfields p) \<longrightarrow>
                    toast_props (toasts (memoryState (dispatch (UPDATE_TOAST p) g)) ! n) k =
                      pfields p k) \<and>
                 (k \<notin> dom (pfields p) \<longrightarrow>
                    toast_props (toasts (memoryState (dispatch (UPDATE_TOAST p) g)) ! n) k =
                      toast_props (toasts (memoryState g) ! n) k))) \<and>
         (Some (toast_id (toasts (memoryState g) ! n)) \<noteq> pid p \<longrightarrow>
            toasts (memoryState (dispatch (UPDATE_TOAST p) g)) ! n =
              toasts (memoryState g) ! n)"
proof -
  have "toast_id (spread t p) = toast_id t" if "Some (toast_id t) = pid p" for t
    using that [symmetric] by (simp add: spread_def)
  then show ?thesis using assms
    by (simp add: spread_props)
qed

theorem update_merges_witness:
  "map (\<lambda>t. (toast_id t, toast_props t ''title'', toast_props t ''description'',
             toast_props t ''open''))
     (toasts (memoryState (handle_update ''1''
        \<lparr> toast_id = ''9'', toast_props = [''description'' \<mapsto> JStr ''D''] \<rparr>
        (snd (toast [''title'' \<mapsto> JStr ''X''] initial)))))
   = [(''1'', Some (JStr ''X''), Some (JStr ''D''), Some (JBool True))]"
  using update_merges [of 0 "snd (toast [''title'' \<mapsto> JStr ''X''] initial)"
      "\<lparr> pid = Some ''1'', pfields = [''description'' \<mapsto> JStr ''D''] \<rparr>"]
  by (simp add: handle_update_def toast_eq initial_def TOAST_LIMIT_def MAX_SAFE_INTEGER_def
        toString.simps digit_char_def spread_def)

text \<open>
  Claim C8. For an id that no tracked toast bears, updating (through the handle, or with
  any patch bearing that id), dismissing and removing leave the state as it is; each is a
  total function, with no error to return. Removing the same id a second time changes
  nothing, whatever the store.
\<close>

theorem lookup_miss_noop:
  assumes "i \<notin> toast_id ` set (toasts (memoryState g))"
  shows "memoryState (handle_update i props g) = memoryState g \<and>
         memoryState (dispatch (UPDATE_TOAST \<lparr> pid = Some i, pfields = f \<rparr>) g) =
           memoryState g \<and>
         memoryState (dismiss (Some i) g) = memoryState g \<and>
         memoryState (handle_dismiss i g) = memoryState g \<and>
         memoryState (dispatch (REMOVE_TOAST (Some i)) g) = memoryState g \<and>
         memoryState (dispatch (REMOVE_TOAST (Some j)) (dispatch (REMOVE_TOAST (Some j)) g)) =
           memoryState (dispatch (REMOVE_TOAST (Some j)) g)"
proof -
  have ne: "toast_id t \<noteq> i" if "t \<in> set (toasts (memoryState g))" for t
    using assms that by auto
  have u: "map (\<lambda>t. if toast_id t = i then spread t \<lparr> pid = Some i, pfields = f' \<rparr> else t)
             (toasts (memoryState g)) = toasts (memoryState g)" for f'
    by (rule map_ident) (simp add: ne)
  have d: "map (\<lambda>t. if toast_id t = i
                     then t\<lparr> toast_props := (toast_props t)(''open'' \<mapsto> JBool False) \<rparr> else t)
             (toasts (memoryState g)) = toasts (memoryState g)"
    by (rule map_ident) (simp add: ne)
  have r: "filter (\<lambda>t. toast_id t \<noteq> i) (toasts (memoryState g)) = toasts (memoryState g)"
    by (rule filter_ident) (simp add: ne)
  show ?thesis
    by (simp add: handle_update_def dismiss_def handle_dismiss_def Let_def u d r)
qed

theorem lookup_miss_noop_witness:
  "memoryState (handle_update ''5'' \<lparr> toast_id = ''5'', toast_props = [''title'' \<mapsto> JStr ''Y''] \<rparr>
      (snd (toast [''title'' \<mapsto> JStr ''X''] initial))) =
     memoryState (snd (toast [''title'' \<mapsto> JStr ''X''] initial)) \<and>
   memoryState (dismiss (Some ''5'') (snd (toast [''title'' \<mapsto> JStr ''X''] initial))) =
     memoryState (snd (toast [''title'' \<mapsto> JStr ''X''] initial)) \<and>
   memoryState (dispatch (REMOVE_TOAST (Some ''5'')) (snd (toast [''title'' \<mapsto> JStr ''X''] initial))) =
     memoryState (snd (toast [''title'' \<mapsto> JStr ''X''] initial))"
proof -
  have "''5'' \<notin> toast_id ` set (toasts (memoryState (snd (toast [''title'' \<mapsto> JStr ''X''] initial))))"
    by (simp add: toast_eq initial_def TOAST_LIMIT_def MAX_SAFE_INTEGER_def toString.simps
        digit_char_def)
  from lookup_miss_noop [OF this] show ?thesis by blast
qed

subsection \<open>Ids of tracked toasts (C9)\<close>

text \<open>
  Claim C9. In every reachable store the ids of the tracked toasts are pairwise
  distinct, the counter is below \<^verbatim>\<open>Number.MAX_SAFE_INTEGER\<close>, and a tracked toast bears the
  decimal form of the counter's current value; different counter values have different
  decimal forms. \<^verbatim>\<open>toast\<close> assigns the decimal form of the counter's next value, modulo
  \<^verbatim>\<open>Number.MAX_SAFE_INTEGER\<close>, which no toast tracked at the call bears. In the store it
  leaves the ids are again distinct, and the only tracked toast bearing the new id is the
  one just built. With \<open>TOAST_LIMIT = 1\<close> every \<^verbatim>\<open>toast\<close> call evicts the toasts tracked
  before, which is what distinctness rests on.
\<close>

theorem tracked_ids_distinct:
  assumes "reachable g"
  shows "distinct (map toast_id (toasts (memoryState g))) \<and>
         count g < MAX_SAFE_INTEGER \<and>
         (\<forall>t \<in> set (toasts (memoryState g)). toast_id t = toString (count g)) \<and>
         (\<forall>m n. toString m = toString n \<longrightarrow> m = n) \<and>
         fst (toast p g) = toString ((count g + 1) mod MAX_SAFE_INTEGER) \<and>
         count (snd (toast p g)) = (count g + 1) mod MAX_SAFE_INTEGER \<and>
         fst (toast p g) \<notin> toast_id ` set (toasts (memoryState g)) \<and>
         distinct (map toast_id (toasts (memoryState (snd (toast p g))))) \<and>
         (\<forall>t \<in> set (toasts (memoryState (snd (toast p g)))).
            toast_id t = fst (toast p g) \<longrightarrow>
            t = \<lparr> toast_id = fst (toast p g),
                  toast_props = (p(''id'' := None))(''open'' \<mapsto> JBool True,
                    ''onOpenChange'' \<mapsto> JFn (DismissOnClose (fst (toast p g)))) \<rparr>)"
proof -
  have i: "store_inv g" using assms by (rule reachable_inv)
  have "length (map toast_id (toasts (memoryState g))) \<le> 1"
    using i by (simp add: store_inv_def TOAST_LIMIT_def)
  then have a: "distinct (map toast_id (toasts (memoryState g)))"
    by (rule length_le_one_distinct)
  have b: "count g < MAX_SAFE_INTEGER" using i by (simp add: store_inv_def)
  have c: "\<forall>t \<in> set (toasts (memoryState g)). toast_id t = toString (count g)"
    using i by (simp add: store_inv_def)
  have d: "\<forall>m n. toString m = toString n \<longrightarrow> m = n"
    by (intro allI impI toString_inj)
  have e: "fst (toast p g) = toString ((count g + 1) mod MAX_SAFE_INTEGER)"
    and f: "count (snd (toast p g)) = (count g + 1) mod MAX_SAFE_INTEGER"
    by (simp_all add: toast_fields)
  have fresh: "fst (toast p g) \<notin> toast_id ` set (toasts (memoryState g))"
    using i by (rule fresh_id)
  have l: "toasts (memoryState (snd (toast p g))) =
      [\<lparr> toast_id = fst (toast p g),
         toast_props = (p(''id'' := None))(''open'' \<mapsto> JBool True,
           ''onOpenChange'' \<mapsto> JFn (DismissOnClose (fst (toast p g)))) \<rparr>]"
    by (simp add: toast_fields TOAST_LIMIT_def)
  have h: "distinct (map toast_id (toasts (memoryState (snd (toast p g)))))"
    by (simp add: l)
  have k: "\<forall>t \<in> set (toasts (memoryState (snd (toast p g)))).
            toast_id t = fst (toast p g) \<longrightarrow>
            t = \<lparr> toast_id = fst (toast p g),
                  toast_props = (p(''id'' := None))(''open'' \<mapsto> JBool True,
                    ''onOpenChange'' \<mapsto> JFn (DismissOnClose (fst (toast p g)))) \<rparr>"
    by (simp add: l)
  show ?thesis by (intro conjI) (fact a b c d e f fresh h k)+
qed

theorem tracked_ids_distinct_witness:
  "map toast_id (toasts (memoryState (snd (toast [''title'' \<mapsto> JStr ''A''] initial)))) = [''1''] \<and>
   fst (toast [''title'' \<mapsto> JStr ''B''] (snd (toast [''title'' \<mapsto> JStr ''A''] initial))) = ''2'' \<and>
   fst (toast [''title'' \<mapsto> JStr ''B''] (snd (toast [''title'' \<mapsto> JStr ''A''] initial)))
     \<notin> toast_id ` set (toasts (memoryState (snd (toast [''title'' \<mapsto> JStr ''A''] initial)))) \<and>
   distinct (map toast_id (toasts (memoryState
     (snd (toast [''title'' \<mapsto> JStr ''B''] (snd (toast [''title'' \<mapsto> JStr ''A''] initial)))))))"
proof -
  have "reachable (step (Show [''title'' \<mapsto> JStr ''A'']) initial)"
    by (intro reachable.intros)
  then have r: "reachable (snd (toast [''title'' \<mapsto> JStr ''A''] initial))" by simp
  have one: "map toast_id (toasts (memoryState (snd (toast [''title'' \<mapsto> JStr ''A''] initial))))
      = [''1'']"
    by (simp add: toast_fields initial_def TOAST_LIMIT_def MAX_SAFE_INTEGER_def toString.simps
        digit_char_def)
  have c: "count (snd (toast [''title'' \<mapsto> JStr ''A''] initial)) = 1"
    by (simp add: toast_fields initial_def MAX_SAFE_INTEGER_def)
  have two: "toString ((1 + 1) mod MAX_SAFE_INTEGER) = ''2''"
    by (simp add: MAX_SAFE_INTEGER_def toString.simps digit_char_def)
  have e: "fst (toast [''title'' \<mapsto> JStr ''B''] (snd (toast [''title'' \<mapsto> JStr ''A''] initial))) =
      toString ((count (snd (toast [''title'' \<mapsto> JStr ''A''] initial)) + 1) mod MAX_SAFE_INTEGER)"
    and fr: "fst (toast [''title'' \<mapsto> JStr ''B''] (snd (toast [''title'' \<mapsto> JStr ''A''] initial)))
     \<notin> toast_id ` set (toasts (memoryState (snd (toast [''title'' \<mapsto> JStr ''A''] initial))))"
    and di: "distinct (map toast_id (toasts (memoryState
     (snd (toast [''title'' \<mapsto> JStr ''B''] (snd (toast [''title'' \<mapsto> JStr ''A''] initial)))))))"
    using tracked_ids_distinct [OF r, of "[''title'' \<mapsto> JStr ''B'']"] by blast+
  have e': "fst (toast [''title'' \<mapsto> JStr ''B''] (snd (toast [''title'' \<mapsto> JStr ''A''] initial)))
      = ''2''"
    unfolding e c by (rule two)
  show ?thesis by (intro conjI) (fact one e' fr di)+
qed

subsection \<open>Dismissing twice (C4)\<close>

text \<open>
  Claim C4. In a reachable store, \<^verbatim>\<open>dismiss(id)\<close> for an id whose removal timer is pending
  sets no timer and leaves \<^verbatim>\<open>toastTimeouts\<close> as it is. A second \<^verbatim>\<open>dismiss\<close> with the same
  argument (an id, or none) leaves the state, \<^verbatim>\<open>toastTimeouts\<close> and the pending timers as
  the first left them. After \<^verbatim>\<open>dismiss(id)\<close> with a non-empty id a timer for it is
  pending, and whenever one is pending after the first call, exactly one timer for that
  id is pending after the second.
\<close>

theorem dismiss_idempotent:
  assumes "reachable g"
  shows "(toastTimeouts g i \<noteq> None \<longrightarrow>
            timers (dismiss (Some i) g) = timers g \<and>
            toastTimeouts (dismiss (Some i) g) = toastTimeouts g \<and>
            nextTimer (dismiss (Some i) g) = nextTimer g) \<and>
         memoryState (dismiss x (dismiss x g)) = memoryState (dismiss x g) \<and>
         toastTimeouts (dismiss x (dismiss x g)) = toastTimeouts (dismiss x g) \<and>
         timers (dismiss x (dismiss x g)) = timers (dismiss x g) \<and>
         nextTimer (dismiss x (dismiss x g)) = nextTimer (dismiss x g) \<and>
         (i \<noteq> [] \<longrightarrow> toastTimeouts (dismiss (Some i) g) i \<noteq> None) \<and>
         (toastTimeouts (dismiss (Some i) g) i \<noteq> None \<longrightarrow>
            length (filter (\<lambda>tm. callback_toastId tm = i)
                      (timers (dismiss (Some i) (dismiss (Some i) g)))) = 1)"
proof -
  have inv: "store_inv g" using assms by (rule reachable_inv)
  have a: "timers (dismiss (Some i) g) = timers g \<and>
           toastTimeouts (dismiss (Some i) g) = toastTimeouts g \<and>
           nextTimer (dismiss (Some i) g) = nextTimer g" if p: "toastTimeouts g i \<noteq> None"
  proof -
    have "i \<noteq> []" using inv p by (auto simp: store_inv_def)
    then have "snd (reducer (memoryState g) (DISMISS_TOAST (Some i)) g) = g"
      using p by (simp add: reducer_dismiss_snd addToRemoveQueue_noop)
    then show ?thesis by (simp add: dismiss_queue)
  qed
  have b: "toastTimeouts (dismiss x (dismiss x g)) = toastTimeouts (dismiss x g) \<and>
           timers (dismiss x (dismiss x g)) = timers (dismiss x g) \<and>
           nextTimer (dismiss x (dismiss x g)) = nextTimer (dismiss x g)" for x
    by (simp only: dismiss_queue [of x "dismiss x g"] dismiss_again_queue simp_thms)
  have c: "length (filter (\<lambda>tm. callback_toastId tm = i)
                      (timers (dismiss (Some i) (dismiss (Some i) g)))) = 1"
    if p: "toastTimeouts (dismiss (Some i) g) i \<noteq> None"
  proof -
    have "store_inv (dismiss (Some i) g)"
      using assms by (intro reachable_inv reachable_dismiss)
    then have ok: "timers_ok (dismiss (Some i) g)" by (simp add: store_inv_def)
    then have "i \<in> callback_toastId ` set (timers (dismiss (Some i) g))"
      using p unfolding timers_ok_def by blast
    moreover have "distinct (map callback_toastId (timers (dismiss (Some i) g)))"
      using ok by (simp add: timers_ok_def)
    ultimately have "length (filter (\<lambda>tm. callback_toastId tm = i)
        (timers (dismiss (Some i) g))) = 1"
      by (rule one_timer [rotated])
    then show ?thesis using b [of "Some i"] by simp
  qed
  show ?thesis
    using a b [of x] c dismiss_again_state [of x g] dismiss_armed_id [of i g] by blast
qed

theorem dismiss_idempotent_witness:
  "timers (dismiss (Some ''1'') (dismiss (Some ''1'')
      (snd (toast [''title'' \<mapsto> JStr ''X''] initial)))) =
     [\<lparr> timer_handle = 0, due = 1000000, callback_toastId = ''1'' \<rparr>] \<and>
   timers (dismiss (Some ''1'') (snd (toast [''title'' \<mapsto> JStr ''X''] initial))) =
     [\<lparr> timer_handle = 0, due = 1000000, callback_toastId = ''1'' \<rparr>] \<and>
   map (\<lambda>t. toast_props t ''open'')
     (toasts (memoryState (dismiss (Some ''1'') (dismiss (Some ''1'')
        (snd (toast [''title'' \<mapsto> JStr ''X''] initial)))))) = [Some (JBool False)]"
proof -
  have "reachable (step (Show [''title'' \<mapsto> JStr ''X'']) initial)"
    by (intro reachable.intros)
  then have r: "reachable (snd (toast [''title'' \<mapsto> JStr ''X''] initial))" by simp
  have t: "timers (dismiss (Some ''1'') (snd (toast [''title'' \<mapsto> JStr ''X''] initial))) =
     [\<lparr> timer_handle = 0, due = 1000000, callback_toastId = ''1'' \<rparr>]"
    by (simp add: dismiss_queue toast_eq initial_def TOAST_LIMIT_def MAX_SAFE_INTEGER_def
        TOAST_REMOVE_DELAY_def toString.simps digit_char_def addToRemoveQueue_def
        setTimeout_def Let_def)
  have o: "map (\<lambda>t. toast_props t ''open'')
     (toasts (memoryState (dismiss (Some ''1'')
        (snd (toast [''title'' \<mapsto> JStr ''X''] initial))))) = [Some (JBool False)]"
    by (simp add: toast_eq initial_def TOAST_LIMIT_def MAX_SAFE_INTEGER_def
        toString.simps digit_char_def)
  have e: "timers (dismiss (Some ''1'') (dismiss (Some ''1'')
        (snd (toast [''title'' \<mapsto> JStr ''X''] initial)))) =
      timers (dismiss (Some ''1'') (snd (toast [''title'' \<mapsto> JStr ''X''] initial)))"
    and m: "memoryState (dismiss (Some ''1'') (dismiss (Some ''1'')
        (snd (toast [''title'' \<mapsto> JStr ''X''] initial)))) =
      memoryState (dismiss (Some ''1'') (snd (toast [''title'' \<mapsto> JStr ''X''] initial)))"
    using dismiss_idempotent [OF r, of "''1''" "Some ''1''"] by blast+
  show ?thesis unfolding e m by (intro conjI t o)
qed

subsection \<open>Dismissal and delayed removal (C7)\<close>

text \<open>
  Claim C7. Let \<open>t\<close> be a tracked toast of a reachable store. \<^verbatim>\<open>dismiss\<close> with its id keeps
  the list's ids as they are, leaves every toast bearing that id with \<^verbatim>\<open>open\<close> set to
  \<^verbatim>\<open>false\<close>, and leaves a removal timer pending for the id; while no time passes nothing
  is removed. When no timer was pending for the id before the call, the timer is due
  exactly \<open>TOAST_REMOVE_DELAY\<close> later, and for any shorter time the toast stays tracked
  and its entry stays in \<^verbatim>\<open>toastTimeouts\<close>. Once at least \<open>TOAST_REMOVE_DELAY\<close> has passed
  after the call, no tracked toast bears the id and \<^verbatim>\<open>toastTimeouts\<close> has no entry for it.
  \<^verbatim>\<open>dismiss\<close> with no id does the same for every tracked toast. In any store \<open>g0\<close>, no
  call takes a pending timer away: it stays pending until the time it is due has passed,
  and then no tracked toast bears its id and \<^verbatim>\<open>toastTimeouts\<close> has no entry for it.
\<close>

theorem dismiss_then_removed:
  assumes "reachable g" and "t \<in> set (toasts (memoryState g))"
  shows "map toast_id (toasts (memoryState (dismiss (Some (toast_id t)) g))) =
           map toast_id (toasts (memoryState g)) \<and>
         (\<forall>t' \<in> set (toasts (memoryState (dismiss (Some (toast_id t)) g))).
            toast_id t' = toast_id t \<longrightarrow> toast_props t' ''open'' = Some (JBool False)) \<and>
         toastTimeouts (dismiss (Some (toast_id t)) g) (toast_id t) \<noteq> None \<and>
         (TOAST_REMOVE_DELAY \<le> d \<longrightarrow>
            toast_id t \<notin> toast_id ` set (toasts (memoryState
               (elapse d (dismiss (Some (toast_id t)) g)))) \<and>
            toastTimeouts (elapse d (dismiss (Some (toast_id t)) g)) (toast_id t) = None) \<and>
         map toast_id (toasts (memoryState (dismiss None g))) =
           map toast_id (toasts (memoryState g)) \<and>
         (\<forall>t' \<in> set (toasts (memoryState (dismiss None g))).
            toast_props t' ''open'' = Some (JBool False)) \<and>
         toastTimeouts (dismiss None g) (toast_id t) \<noteq> None \<and>
         (TOAST_REMOVE_DELAY \<le> d \<longrightarrow>
            toast_id t \<notin> toast_id ` set (toasts (memoryState (elapse d (dismiss None g)))) \<and>
            toastTimeouts (elapse d (dismiss None g)) (toast_id t) = None) \<and>
         toasts (memoryState (elapse 0 (dismiss (Some (toast_id t)) g))) =
           toasts (memoryState (dismiss (Some (toast_id t)) g)) \<and>
         toasts (memoryState (elapse 0 (dismiss None g))) =
           toasts (memoryState (dismiss None g)) \<and>
         (toastTimeouts g (toast_id t) = None \<longrightarrow>
            (\<exists>tm \<in> set (timers (dismiss (Some (toast_id t)) g)).
               callback_toastId tm = toast_id t \<and> due tm = now g + TOAST_REMOVE_DELAY) \<and>
            (\<exists>tm \<in> set (timers (dismiss None g)).
               callback_toastId tm = toast_id t \<and> due tm = now g + TOAST_REMOVE_DELAY)) \<and>
         (toastTimeouts g (toast_id t) = None \<longrightarrow> d < TOAST_REMOVE_DELAY \<longrightarrow>
            toast_id t \<in> toast_id ` set (toasts (memoryState
               (elapse d (dismiss (Some (toast_id t)) g)))) \<and>
            toastTimeouts (elapse d (dismiss (Some (toast_id t)) g)) (toast_id t) \<noteq> None \<and>
            toast_id t \<in> toast_id ` set (toasts (memoryState (elapse d (dismiss None g)))) \<and>
            toastTimeouts (elapse d (dismiss None g)) (toast_id t) \<noteq> None) \<and>
         (\<forall>tm \<in> set (timers g0).
            tm \<in> set (timers (step e g0)) \<or> (\<exists>d'. e = Elapse d' \<and> due tm \<le> now g0 + d')) \<and>
         (\<forall>tm \<in> set (timers g0). due tm \<le> now g0 + d \<longrightarrow>
            callback_toastId tm \<notin> toast_id ` set (toasts (memoryState (elapse d g0))) \<and>
            toastTimeouts (elapse d g0) (callback_toastId tm) = None)"
proof -
  have i1: "store_inv (dismiss (Some (toast_id t)) g)"
    using assms(1) by (intro reachable_inv reachable_dismiss)
  have i2: "store_inv (dismiss None g)"
    using assms(1) by (intro reachable_inv reachable_dismiss)
  have a1: "toastTimeouts (dismiss (Some (toast_id t)) g) (toast_id t) \<noteq> None"
    using assms(2) by (rule dismiss_armed_tracked)
  have a2: "toastTimeouts (dismiss None g) (toast_id t) \<noteq> None"
    using assms(2) by (rule dismiss_armed_all)
  have o1: "\<forall>t' \<in> set (toasts (memoryState (dismiss (Some (toast_id t)) g))).
            toast_id t' = toast_id t \<longrightarrow> toast_props t' ''open'' = Some (JBool False)"
    by auto
  have o2: "\<forall>t' \<in> set (toasts (memoryState (dismiss None g))).
            toast_props t' ''open'' = Some (JBool False)"
    by auto
  have e1: "TOAST_REMOVE_DELAY \<le> d \<longrightarrow>
            toast_id t \<notin> toast_id ` set (toasts (memoryState
               (elapse d (dismiss (Some (toast_id t)) g)))) \<and>
            toastTimeouts (elapse d (dismiss (Some (toast_id t)) g)) (toast_id t) = None"
    using elapse_removes [OF i1 a1, of d] by (intro impI)
  have e2: "TOAST_REMOVE_DELAY \<le> d \<longrightarrow>
            toast_id t \<notin> toast_id ` set (toasts (memoryState (elapse d (dismiss None g)))) \<and>
            toastTimeouts (elapse d (dismiss None g)) (toast_id t) = None"
    using elapse_removes [OF i2 a2, of d] by (intro impI)
  have d1: "map toast_id (toasts (memoryState (dismiss (Some (toast_id t)) g))) =
           map toast_id (toasts (memoryState g))"
    by (rule dismiss_ids)
  have d2: "map toast_id (toasts (memoryState (dismiss None g))) =
           map toast_id (toasts (memoryState g))"
    by (rule dismiss_ids)
  have kept: "\<forall>tm \<in> set (timers g0).
            tm \<in> set (timers (step e g0)) \<or> (\<exists>d'. e = Elapse d' \<and> due tm \<le> now g0 + d')"
    by (intro ballI step_keeps_timer)
  have fired: "\<forall>tm \<in> set (timers g0). due tm \<le> now g0 + d \<longrightarrow>
            callback_toastId tm \<notin> toast_id ` set (toasts (memoryState (elapse d g0))) \<and>
            toastTimeouts (elapse d g0) (callback_toastId tm) = None"
    by (intro ballI impI elapse_fires)
  have z1: "toasts (memoryState (elapse 0 (dismiss (Some (toast_id t)) g))) =
           toasts (memoryState (dismiss (Some (toast_id t)) g))"
    using i1 by (rule elapse_zero)
  have z2: "toasts (memoryState (elapse 0 (dismiss None g))) =
           toasts (memoryState (dismiss None g))"
    using i2 by (rule elapse_zero)
  have inv: "store_inv g" using assms(1) by (rule reachable_inv)
  have n: "toastTimeouts g (toast_id t) = None \<longrightarrow>
            (\<exists>tm \<in> set (timers (dismiss (Some (toast_id t)) g)).
               callback_toastId tm = toast_id t \<and> due tm = now g + TOAST_REMOVE_DELAY) \<and>
            (\<exists>tm \<in> set (timers (dismiss None g)).
               callback_toastId tm = toast_id t \<and> due tm = now g + TOAST_REMOVE_DELAY)"
  proof (intro impI conjI)
    assume none: "toastTimeouts g (toast_id t) = None"
    show "\<exists>tm \<in> set (timers (dismiss (Some (toast_id t)) g)).
               callback_toastId tm = toast_id t \<and> due tm = now g + TOAST_REMOVE_DELAY"
      using inv assms(2) none by (rule dismiss_new_timer) simp
    show "\<exists>tm \<in> set (timers (dismiss None g)).
               callback_toastId tm = toast_id t \<and> due tm = now g + TOAST_REMOVE_DELAY"
      using inv assms(2) none by (rule dismiss_new_timer) simp
  qed
  have s: "toastTimeouts g (toast_id t) = None \<longrightarrow> d < TOAST_REMOVE_DELAY \<longrightarrow>
            toast_id t \<in> toast_id ` set (toasts (memoryState
               (elapse d (dismiss (Some (toast_id t)) g)))) \<and>
            toastTimeouts (elapse d (dismiss (Some (toast_id t)) g)) (toast_id t) \<noteq> None \<and>
            toast_id t \<in> toast_id ` set (toasts (memoryState (elapse d (dismiss None g)))) \<and>
            toastTimeouts (elapse d (dismiss None g)) (toast_id t) \<noteq> None"
  proof (intro impI)
    assume none: "toastTimeouts g (toast_id t) = None" and d: "d < TOAST_REMOVE_DELAY"
    have "toast_id t \<in> toast_id ` set (toasts (memoryState
               (elapse d (dismiss (Some (toast_id t)) g)))) \<and>
            toastTimeouts (elapse d (dismiss (Some (toast_id t)) g)) (toast_id t) \<noteq> None"
      using inv i1 assms(2) none _ d by (rule dismiss_stays) simp
    moreover have "toast_id t \<in> toast_id ` set (toasts (memoryState
               (elapse d (dismiss None g)))) \<and>
            toastTimeouts (elapse d (dismiss None g)) (toast_id t) \<noteq> None"
      using inv i2 assms(2) none _ d by (rule dismiss_stays) simp
    ultimately show "toast_id t \<in> toast_id ` set (toasts (memoryState
               (elapse d (dismiss (Some (toast_id t)) g)))) \<and>
            toastTimeouts (elapse d (dismiss (Some (toast_id t)) g)) (toast_id t) \<noteq> None \<and>
            toast_id t \<in> toast_id ` set (toasts (memoryState (elapse d (dismiss None g)))) \<and>
            toastTimeouts (elapse d (dismiss None g)) (toast_id t) \<noteq> None"
      by (simp only: simp_thms)
  qed
  show ?thesis
    by (intro conjI) (fact d1 o1 a1 e1 d2 o2 a2 e2 z1 z2 n s kept fired)+
qed

theorem dismiss_then_removed_witness:
  "map (\<lambda>t. (toast_id t, toast_props t ''open''))
     (toasts (memoryState (dismiss (Some ''1'')
        (snd (toast [''title'' \<mapsto> JStr ''X''] initial))))) = [(''1'', Some (JBool False))] \<and>
   toastTimeouts (dismiss (Some ''1'')
        (snd (toast [''title'' \<mapsto> JStr ''X''] initial))) ''1'' \<noteq> None \<and>
   ''1'' \<in> toast_id ` set (toasts (memoryState (elapse 999999 (dismiss (Some ''1'')
        (snd (toast [''title'' \<mapsto> JStr ''X''] initial)))))) \<and>
   toastTimeouts (elapse 999999 (dismiss (Some ''1'')
        (snd (toast [''title'' \<mapsto> JStr ''X''] initial)))) ''1'' \<noteq> None \<and>
   ''1'' \<notin> toast_id ` set (toasts (memoryState (elapse 1000000 (dismiss (Some ''1'')
        (snd (toast [''title'' \<mapsto> JStr ''X''] initial)))))) \<and>
   toastTimeouts (elapse 1000000 (dismiss (Some ''1'')
        (snd (toast [''title'' \<mapsto> JStr ''X''] initial)))) ''1'' = None"
proof -
  have "reachable (step (Show [''title'' \<mapsto> JStr ''X'']) initial)"
    by (intro reachable.intros)
  then have r: "reachable (snd (toast [''title'' \<mapsto> JStr ''X''] initial))" by simp
  have ts: "toasts (memoryState (snd (toast [''title'' \<mapsto> JStr ''X''] initial))) =
      [\<lparr> toast_id = ''1'', toast_props = [''title'' \<mapsto> JStr ''X'', ''open'' \<mapsto> JBool True,
          ''onOpenChange'' \<mapsto> JFn (DismissOnClose ''1'')] \<rparr>]"
    by (simp add: toast_eq initial_def TOAST_LIMIT_def MAX_SAFE_INTEGER_def toString.simps
        digit_char_def)
  then have m: "\<lparr> toast_id = ''1'', toast_props = [''title'' \<mapsto> JStr ''X'',
        ''open'' \<mapsto> JBool True, ''onOpenChange'' \<mapsto> JFn (DismissOnClose ''1'')] \<rparr>
      \<in> set (toasts (memoryState (snd (toast [''title'' \<mapsto> JStr ''X''] initial))))"
    by simp
  have i: "toast_id \<lparr> toast_id = ''1'', toast_props = [''title'' \<mapsto> JStr ''X'',
        ''open'' \<mapsto> JBool True, ''onOpenChange'' \<mapsto> JFn (DismissOnClose ''1'')] \<rparr> = ''1''"
    by simp
  have none: "toastTimeouts (snd (toast [''title'' \<mapsto> JStr ''X''] initial)) ''1'' = None"
    by (simp add: toast_fields initial_def)
  have late: "TOAST_REMOVE_DELAY \<le> 1000000" and early: "999999 < TOAST_REMOVE_DELAY"
    by (simp_all add: TOAST_REMOVE_DELAY_def)
  have o: "map (\<lambda>t. (toast_id t, toast_props t ''open''))
     (toasts (memoryState (dismiss (Some ''1'')
        (snd (toast [''title'' \<mapsto> JStr ''X''] initial))))) = [(''1'', Some (JBool False))]"
    by (simp add: ts)
  have a: "toastTimeouts (dismiss (Some ''1'')
        (snd (toast [''title'' \<mapsto> JStr ''X''] initial))) ''1'' \<noteq> None"
    and b: "''1'' \<notin> toast_id ` set (toasts (memoryState (elapse 1000000 (dismiss (Some ''1'')
        (snd (toast [''title'' \<mapsto> JStr ''X''] initial))))))"
    and c: "toastTimeouts (elapse 1000000 (dismiss (Some ''1'')
        (snd (toast [''title'' \<mapsto> JStr ''X''] initial)))) ''1'' = None"
    using dismiss_then_removed [OF r m, of 1000000 initial "Elapse 0", unfolded i] late
    by (elim conjE, simp only: simp_thms)+
  have d: "''1'' \<in> toast_id ` set (toasts (memoryState (elapse 999999 (dismiss (Some ''1'')
        (snd (toast [''title'' \<mapsto> JStr ''X''] initial))))))"
    and e: "toastTimeouts (elapse 999999 (dismiss (Some ''1'')
        (snd (toast [''title'' \<mapsto> JStr ''X''] initial)))) ''1'' \<noteq> None"
    using dismiss_then_removed [OF r m, of 999999 initial "Elapse 0", unfolded i] none early
    by (elim conjE, simp only: simp_thms)+
  show ?thesis by (intro conjI) (fact o a d e b c)+
qed

subsection \<open>Dismissing an unknown id (C10)\<close>

text \<open>
  Claim C10 as stated fails for the empty string, which \<^verbatim>\<open>if (toastId)\<close> takes for a
  missing id: \<^verbatim>\<open>dismiss("")\<close> in the initial store sets no timer, and with the toast
  \<^verbatim>\<open>"1"\<close> tracked it sets a timer for \<^verbatim>\<open>"1"\<close> and none for the empty id.
\<close>

theorem dismiss_empty_id_counterexample:
  "toastTimeouts (dismiss (Some []) initial) [] = None \<and>
   timers (dismiss (Some []) initial) = [] \<and>
   map toast_id (toasts (memoryState (snd (toast [''title'' \<mapsto> JStr ''X''] initial)))) = [''1''] \<and>
   toastTimeouts (dismiss (Some []) (snd (toast [''title'' \<mapsto> JStr ''X''] initial))) [] = None \<and>
   map callback_toastId
     (timers (dismiss (Some []) (snd (toast [''title'' \<mapsto> JStr ''X''] initial)))) = [''1'']"
  by (simp add: dismiss_queue toast_eq initial_def TOAST_LIMIT_def MAX_SAFE_INTEGER_def
        TOAST_REMOVE_DELAY_def toString.simps digit_char_def addToRemoveQueue_def
        setTimeout_def Let_def)

text \<open>
  Claim C10, as amended. In a reachable store, \<^verbatim>\<open>dismiss(id)\<close> with a non-empty id that no
  tracked toast bears leaves the state as it is, and afterwards a timer for that id is
  pending and recorded in \<^verbatim>\<open>toastTimeouts\<close>: a new one, set for \<open>TOAST_REMOVE_DELAY\<close> from
  now, when none was pending before. When that timer fires, its callback deletes the map
  entry and dispatches \<^verbatim>\<open>REMOVE_TOAST\<close> for the id, which leaves the state as it is; once
  the delay has passed the entry is gone.
\<close>

theorem dismiss_unknown_arms:
  assumes "reachable g" and "i \<noteq> []" and "i \<notin> toast_id ` set (toasts (memoryState g))"
  shows "memoryState (dismiss (Some i) g) = memoryState g \<and>
         (\<exists>tm \<in> set (timers (dismiss (Some i) g)).
            callback_toastId tm = i \<and>
            toastTimeouts (dismiss (Some i) g) i = Some (timer_handle tm)) \<and>
         (toastTimeouts g i = None \<longrightarrow>
            timers (dismiss (Some i) g) =
              timers g @ [\<lparr> timer_handle = nextTimer g, due = now g + TOAST_REMOVE_DELAY,
                             callback_toastId = i \<rparr>] \<and>
            toastTimeouts (dismiss (Some i) g) = (toastTimeouts g)(i \<mapsto> nextTimer g)) \<and>
         (\<forall>tm \<in> set (timers (dismiss (Some i) g)). callback_toastId tm = i \<longrightarrow>
            fire tm (dismiss (Some i) g) =
              dispatch (REMOVE_TOAST (Some i))
                ((dismiss (Some i) g)
                   \<lparr> toastTimeouts := (toastTimeouts (dismiss (Some i) g))(i := None),
                     timers := remove1 tm (timers (dismiss (Some i) g)) \<rparr>) \<and>
            memoryState (fire tm (dismiss (Some i) g)) = memoryState g \<and>
            toastTimeouts (fire tm (dismiss (Some i) g)) i = None) \<and>
         (TOAST_REMOVE_DELAY \<le> d \<longrightarrow>
            toastTimeouts (elapse d (dismiss (Some i) g)) i = None)"
proof -
  have inv: "store_inv (dismiss (Some i) g)"
    using assms(1) by (intro reachable_inv reachable_dismiss)
  then have ok: "timers_ok (dismiss (Some i) g)" by (simp add: store_inv_def)
  have armed: "toastTimeouts (dismiss (Some i) g) i \<noteq> None"
    using assms(2) by (rule dismiss_armed_id)
  have m: "memoryState (dismiss (Some i) g) = memoryState g"
    using assms(3) by (rule dismiss_unknown_state)
  have a: "\<exists>tm \<in> set (timers (dismiss (Some i) g)).
            callback_toastId tm = i \<and>
            toastTimeouts (dismiss (Some i) g) i = Some (timer_handle tm)"
  proof -
    obtain tm where tm: "tm \<in> set (timers (dismiss (Some i) g))" "callback_toastId tm = i"
      using ok armed unfolding timers_ok_def by blast
    then have "toastTimeouts (dismiss (Some i) g) (callback_toastId tm) = Some (timer_handle tm)"
      using ok unfolding timers_ok_def by blast
    then show ?thesis using tm by blast
  qed
  have b: "timers (dismiss (Some i) g) =
              timers g @ [\<lparr> timer_handle = nextTimer g, due = now g + TOAST_REMOVE_DELAY,
                             callback_toastId = i \<rparr>] \<and>
            toastTimeouts (dismiss (Some i) g) = (toastTimeouts g)(i \<mapsto> nextTimer g)"
    if "toastTimeouts g i = None"
    using that assms(2)
    by (simp add: dismiss_queue reducer_dismiss_snd addToRemoveQueue_def setTimeout_def)
  have c: "fire tm (dismiss (Some i) g) =
              dispatch (REMOVE_TOAST (Some i))
                ((dismiss (Some i) g)
                   \<lparr> toastTimeouts := (toastTimeouts (dismiss (Some i) g))(i := None),
                     timers := remove1 tm (timers (dismiss (Some i) g)) \<rparr>) \<and>
            memoryState (fire tm (dismiss (Some i) g)) = memoryState g \<and>
            toastTimeouts (fire tm (dismiss (Some i) g)) i = None"
    if "callback_toastId tm = i" for tm
  proof -
    have "filter (\<lambda>t. toast_id t \<noteq> i) (toasts (memoryState g)) = toasts (memoryState g)"
      using assms(3) by (intro filter_ident) auto
    then have "memoryState (fire tm (dismiss (Some i) g)) = memoryState g"
      using that by (simp add: fire_def timeout_callback_def m)
    then show ?thesis using that
      by (simp add: fire_def timeout_callback_def)
  qed
  have e: "toastTimeouts (elapse d (dismiss (Some i) g)) i = None"
    if "TOAST_REMOVE_DELAY \<le> d"
    using elapse_removes [OF inv armed that] by blast
  have b': "toastTimeouts g i = None \<longrightarrow>
            timers (dismiss (Some i) g) =
              timers g @ [\<lparr> timer_handle = nextTimer g, due = now g + TOAST_REMOVE_DELAY,
                             callback_toastId = i \<rparr>] \<and>
            toastTimeouts (dismiss (Some i) g) = (toastTimeouts g)(i \<mapsto> nextTimer g)"
    by (intro impI b)
  have c': "\<forall>tm \<in> set (timers (dismiss (Some i) g)). callback_toastId tm = i \<longrightarrow>
            fire tm (dismiss (Some i) g) =
              dispatch (REMOVE_TOAST (Some i))
                ((dismiss (Some i) g)
                   \<lparr> toastTimeouts := (toastTimeouts (dismiss (Some i) g))(i := None),
                     timers := remove1 tm (timers (dismiss (Some i) g)) \<rparr>) \<and>
            memoryState (fire tm (dismiss (Some i) g)) = memoryState g \<and>
            toastTimeouts (fire tm (dismiss (Some i) g)) i = None"
    by (intro ballI impI c)
  have e': "TOAST_REMOVE_DELAY \<le> d \<longrightarrow>
            toastTimeouts (elapse d (dismiss (Some i) g)) i = None"
    by (intro impI e)
  show ?thesis by (intro conjI) (fact m a b' c' e')+
qed

theorem dismiss_unknown_arms_witness:
  "timers (dismiss (Some ''5'') initial) =
     [\<lparr> timer_handle = 0, due = TOAST_REMOVE_DELAY, callback_toastId = ''5'' \<rparr>] \<and>
   toastTimeouts (dismiss (Some ''5'') initial) = [''5'' \<mapsto> 0] \<and>
   memoryState (dismiss (Some ''5'') initial) = memoryState initial \<and>
   toastTimeouts (elapse TOAST_REMOVE_DELAY (dismiss (Some ''5'') initial)) ''5'' = None"
proof -
  have n: "''5'' \<noteq> []" by simp
  have u: "''5'' \<notin> toast_id ` set (toasts (memoryState initial))"
    by (simp add: initial_def)
  have z: "toastTimeouts initial ''5'' = None" "timers initial = []" "nextTimer initial = 0"
    "now initial = 0" "toastTimeouts initial = Map.empty"
    by (simp_all add: initial_def)
  show ?thesis
    using dismiss_unknown_arms [OF reachable.start n u, of TOAST_REMOVE_DELAY] z
    by (simp del: elapse_fields)
qed

end
